theory Spec2Isabelle
  imports Main "HOL-Library.Sublist"
begin

section \<open>Python strings\<close>

text \<open>
  A Python \<open>str\<close> is a sequence of Unicode code points; two of the characters the parser
  looks for (U+00B7 and U+2022) lie outside ASCII and one outside Latin-1, so a string is a
  list of code points, not a list of 8-bit characters. \<open>cps\<close> turns an ASCII literal into
  its code points.
\<close>

type_synonym str = "nat list"

definition cps :: "string \<Rightarrow> str" where
  "cps = map of_char"

text \<open>
  Whitespace as \<open>str.strip()\<close> and the pattern \<open>\s\<close> of a Unicode pattern see it
  (CPython's \<open>Py_UNICODE_ISSPACE\<close>): U+0009..U+000D, U+001C..U+0020, U+0085, U+00A0,
  U+1680, U+2000..U+200A, U+2028, U+2029, U+202F, U+205F, U+3000.
\<close>

definition is_space :: "nat \<Rightarrow> bool" where
  "is_space c \<longleftrightarrow>
     (9 \<le> c \<and> c \<le> 13) \<or> (28 \<le> c \<and> c \<le> 32) \<or> c = 133 \<or> c = 160 \<or> c = 5760 \<or>
     (8192 \<le> c \<and> c \<le> 8202) \<or> c = 8232 \<or> c = 8233 \<or> c = 8239 \<or> c = 8287 \<or> c = 12288"

text \<open>
  \<open>\w\<close> of a Unicode pattern: an alphanumeric character or the underscore. On ASCII that is
  \<open>[0-9A-Za-z_]\<close>; beyond ASCII it is the Unicode database's table, which is no part of the
  repository and enters as the parameter \<open>uni\<close>.
\<close>

definition is_word :: "(nat \<Rightarrow> bool) \<Rightarrow> nat \<Rightarrow> bool" where
  "is_word uni c \<longleftrightarrow>
     (if c < 128
      then (48 \<le> c \<and> c \<le> 57) \<or> (65 \<le> c \<and> c \<le> 90) \<or> (97 \<le> c \<and> c \<le> 122) \<or> c = 95
      else uni c)"

text \<open>\<open>.\<close> under \<open>re.DOTALL\<close>, and \<open>.\<close> without it.\<close>

definition any_char :: "nat \<Rightarrow> bool" where
  "any_char c = True"

definition not_newline :: "nat \<Rightarrow> bool" where
  "not_newline c \<longleftrightarrow> c \<noteq> 10"

text \<open>The class \<open>[\<cdot>\<bullet>]\<close> (U+00B7, U+2022) and the escaped period.\<close>

definition is_glyph :: "nat \<Rightarrow> bool" where
  "is_glyph c \<longleftrightarrow> c = 183 \<or> c = 8226"

definition is_dot :: "nat \<Rightarrow> bool" where
  "is_dot c \<longleftrightarrow> c = 46"

text \<open>
  Lower-casing as \<open>re.IGNORECASE\<close> applies it to both sides of a literal comparison. Only
  the letters of the two section markers are ever compared, and no character outside ASCII
  lower-cases to one of them, so the ASCII letters are all that the model maps.
\<close>

definition lower :: "nat \<Rightarrow> nat" where
  "lower c = (if 65 \<le> c \<and> c \<le> 90 then c + 32 else c)"

text \<open>\<open>s.strip()\<close>: leading and trailing whitespace removed.\<close>

definition strip :: "str \<Rightarrow> str" where
  "strip s = rev (dropWhile is_space (rev (dropWhile is_space s)))"

text \<open>\<open>sub in s\<close> on strings.\<close>

fun str_contains :: "str \<Rightarrow> str \<Rightarrow> bool" where
  "str_contains sub [] = (sub = [])"
| "str_contains sub (c # cs) = (prefix sub (c # cs) \<or> str_contains sub cs)"

text \<open>
  \<open>s.replace(old, new)\<close>: every occurrence of \<open>old\<close>, found scanning from the left and
  never overlapping, becomes \<open>new\<close>. For an empty \<open>old\<close> Python puts \<open>new\<close> before every
  character and at the end.
\<close>

function str_replace :: "str \<Rightarrow> str \<Rightarrow> str \<Rightarrow> str" where
  "str_replace old new [] = (if old = [] then new else [])"
| "str_replace old new (c # cs) =
     (if old = [] then new @ c # str_replace old new cs
      else if prefix old (c # cs) then new @ str_replace old new (drop (length old) (c # cs))
      else c # str_replace old new cs)"
  by pat_completeness auto
termination
  by (relation "measure (\<lambda>(old, new, s). length s)") auto

section \<open>The regular expressions of the parser\<close>

text \<open>
  The patterns of \<open>parse_code_proof\<close> are kept as data and run by a backtracking matcher
  that tries alternatives in the order Python's \<open>re\<close> does: a greedy repetition from the
  longest run down, a lazy one from the shortest up, an optional group first with and then
  without, an alternation left to right. Every repetition in the source is over a single
  character class, which is what \<open>Star\<close>, \<open>Plus\<close> and \<open>Lazy\<close> take.
\<close>

datatype item =
    Lit bool str
  | One "nat \<Rightarrow> bool"
  | Star "nat \<Rightarrow> bool"
  | Plus "nat \<Rightarrow> bool"
  | Lazy "nat \<Rightarrow> bool"
  | Opt "item list"
  | Alt "item list" "item list"
  | Bol
  | Eos
  | GOpen
  | GClose

text \<open>
  \<open>Lit ci l\<close> is the literal text \<open>l\<close>, compared case-insensitively when \<open>ci\<close> holds;
  \<open>Bol\<close> is \<open>^\<close> under \<open>re.MULTILINE\<close> (the start of the text or just after a line feed);
  \<open>Eos\<close> is \<open>$\<close> without \<open>re.MULTILINE\<close> (the end of the text or just before a line feed
  that ends it); \<open>GOpen\<close> and \<open>GClose\<close> delimit group 1.
\<close>

fun first_some :: "'a option list \<Rightarrow> 'a option" where
  "first_some [] = None"
| "first_some (None # xs) = first_some xs"
| "first_some (Some x # xs) = Some x"

definition lit_prefix :: "bool \<Rightarrow> str \<Rightarrow> str \<Rightarrow> bool" where
  "lit_prefix ci l s = (if ci then prefix (map lower l) (map lower s) else prefix l s)"

text \<open>The character before the current position, once \<open>k\<close> more characters are consumed.\<close>

fun prev_after :: "nat option \<Rightarrow> str \<Rightarrow> nat \<Rightarrow> nat option" where
  "prev_after prev s 0 = prev"
| "prev_after prev s (Suc k) = (if k < length s then Some (s ! k) else prev)"

type_synonym caps = "str option \<times> str option"

text \<open>
  \<open>re_match re prev s cap\<close> matches \<open>re\<close> at the start of the remaining text \<open>s\<close>, whose
  preceding character is \<open>prev\<close>; it returns the text left after the match and the captures
  (the text that remained where group 1 opened, and the group's text once it closed).
\<close>

fun re_match :: "item list \<Rightarrow> nat option \<Rightarrow> str \<Rightarrow> caps \<Rightarrow> (str \<times> caps) option" where
  "re_match [] prev s cap = Some (s, cap)"
| "re_match (Lit ci l # r) prev s cap =
     (if lit_prefix ci l s
      then re_match r (prev_after prev s (length l)) (drop (length l) s) cap
      else None)"
| "re_match (One c # r) prev s cap =
     (case s of [] \<Rightarrow> None
      | x # xs \<Rightarrow> if c x then re_match r (Some x) xs cap else None)"
| "re_match (Star c # r) prev s cap =
     first_some (map (\<lambda>k. re_match r (prev_after prev s k) (drop k s) cap)
                     (rev [0..<Suc (length (takeWhile c s))]))"
| "re_match (Plus c # r) prev s cap =
     first_some (map (\<lambda>k. re_match r (prev_after prev s k) (drop k s) cap)
                     (rev [1..<Suc (length (takeWhile c s))]))"
| "re_match (Lazy c # r) prev s cap =
     first_some (map (\<lambda>k. re_match r (prev_after prev s k) (drop k s) cap)
                     [0..<Suc (length (takeWhile c s))])"
| "re_match (Opt a # r) prev s cap =
     first_some [re_match (a @ r) prev s cap, re_match r prev s cap]"
| "re_match (Alt a b # r) prev s cap =
     first_some [re_match (a @ r) prev s cap, re_match (b @ r) prev s cap]"
| "re_match (Bol # r) prev s cap =
     (if prev = None \<or> prev = Some 10 then re_match r prev s cap else None)"
| "re_match (Eos # r) prev s cap =
     (if s = [] \<or> s = [10] then re_match r prev s cap else None)"
| "re_match (GOpen # r) prev s cap = re_match r prev s (Some s, snd cap)"
| "re_match (GClose # r) prev s cap =
     re_match r prev s
       (fst cap, case fst cap of None \<Rightarrow> None
                 | Some s0 \<Rightarrow> Some (take (length s0 - length s) s0))"

text \<open>\<open>re.search\<close>: the match at the leftmost position that has one.\<close>

fun re_search_from :: "item list \<Rightarrow> nat option \<Rightarrow> str \<Rightarrow> (str \<times> caps) option" where
  "re_search_from re prev [] = re_match re prev [] (None, None)"
| "re_search_from re prev (c # cs) =
     (case re_match re prev (c # cs) (None, None) of
        Some r \<Rightarrow> Some r
      | None \<Rightarrow> re_search_from re (Some c) cs)"

definition re_search :: "item list \<Rightarrow> str \<Rightarrow> (str \<times> caps) option" where
  "re_search re s = re_search_from re None s"

text \<open>
  \<open>mt.group(1)\<close>. Group 1 takes part in every match of the two patterns it is read from;
  the empty text stands in for the \<open>None\<close> Python would give otherwise.
\<close>

definition group1 :: "str \<times> caps \<Rightarrow> str" where
  "group1 r = (case snd (snd r) of Some g \<Rightarrow> g | None \<Rightarrow> [])"

text \<open>
  \<open>re.sub\<close>: scanning from the left, each match is replaced and the scan goes on where the
  match ended; where nothing matches, one character is copied. An empty match is replaced
  and the next character copied (none of the patterns below can match the empty text).
\<close>

function re_sub_from :: "item list \<Rightarrow> str \<Rightarrow> nat option \<Rightarrow> str \<Rightarrow> str" where
  "re_sub_from re repl prev s =
     (case re_match re prev s (None, None) of
        Some (s', _) \<Rightarrow>
          if length s' < length s
          then repl @ re_sub_from re repl (Some (s ! (length s - length s' - 1))) s'
          else (case s of [] \<Rightarrow> repl
                | c # cs \<Rightarrow> repl @ c # re_sub_from re repl (Some c) cs)
      | None \<Rightarrow>
          (case s of [] \<Rightarrow> []
           | c # cs \<Rightarrow> c # re_sub_from re repl (Some c) cs))"
  by pat_completeness auto
termination
  by (relation "measure (\<lambda>(re, repl, prev, s). length s)") auto

declare re_sub_from.simps [simp del]

definition re_sub :: "item list \<Rightarrow> str \<Rightarrow> str \<Rightarrow> str" where
  "re_sub re repl s = re_sub_from re repl None s"

text \<open>The patterns, in the order \<open>parse_code_proof\<close> uses them (lines 13 to 31).\<close>

definition CODE_RE :: "item list" where
  "CODE_RE = [Lit True (cps ''CODE:''), GOpen, Lazy any_char, GClose,
              Alt [Lit True (cps ''PROOF:'')] [Eos]]"

definition PROOF_RE :: "item list" where
  "PROOF_RE = [Lit True (cps ''PROOF:''), GOpen, Star any_char, GClose]"

definition FENCE_OPEN_RE :: "item list" where
  "FENCE_OPEN_RE = [Lit False [96, 96, 96], Opt [Lit False (cps ''lean'')], Star is_space]"

definition FENCE_CLOSE_RE :: "item list" where
  "FENCE_CLOSE_RE = [Star is_space, Lit False [96, 96, 96]]"

definition DEF_RE :: "(nat \<Rightarrow> bool) \<Rightarrow> item list" where
  "DEF_RE uni =
     [Bol, Lit False (cps ''def''), Plus is_space, Plus (is_word uni), Star is_space,
      Lit False (cps ''(''), Star not_newline, Lit False (cps '')''), Star is_space,
      Lit False (cps '':''), Star not_newline, Lit False (cps '':=''), Star is_space]"

definition BULLET_RE :: "item list" where
  "BULLET_RE = [Bol, Star is_space, One is_glyph, Star is_space]"

definition DOT_RE :: "item list" where
  "DOT_RE = [Bol, Star is_space, One is_dot, Star is_space]"

section \<open>parse\_code\_proof\<close>

text \<open>The sentinel is the five letters s, o, r, r, y; the canonical bullet is U+00B7 and a space.\<close>

definition sentinel :: str where
  "sentinel = [115, 111, 114, 114, 121]"

definition canonical_bullet :: str where
  "canonical_bullet = [183, 32]"

text \<open>Lines 13 to 17: the two searches, group 1 stripped, the empty text without a match.\<close>

definition code_section :: "str \<Rightarrow> str" where
  "code_section response =
     (case re_search CODE_RE response of Some mt \<Rightarrow> strip (group1 mt) | None \<Rightarrow> [])"

definition proof_section :: "str \<Rightarrow> str" where
  "proof_section response =
     (case re_search PROOF_RE response of Some mt \<Rightarrow> strip (group1 mt) | None \<Rightarrow> [])"

text \<open>Lines 20 to 23, applied to either span.\<close>

definition strip_fences :: "str \<Rightarrow> str" where
  "strip_fences s = re_sub FENCE_CLOSE_RE [] (re_sub FENCE_OPEN_RE [] s)"

text \<open>Line 26.\<close>

definition strip_def_header :: "(nat \<Rightarrow> bool) \<Rightarrow> str \<Rightarrow> str" where
  "strip_def_header uni code = re_sub (DEF_RE uni) [] code"

text \<open>Lines 30 and 31.\<close>

definition normalize_bullets :: "str \<Rightarrow> str" where
  "normalize_bullets p = re_sub DOT_RE canonical_bullet (re_sub BULLET_RE canonical_bullet p)"

text \<open>Lines 34 to 37.\<close>

definition or_sentinel :: "str \<Rightarrow> str" where
  "or_sentinel s = (if s = [] then sentinel else s)"

definition parse_code_proof :: "(nat \<Rightarrow> bool) \<Rightarrow> str \<Rightarrow> str \<times> str" where
  "parse_code_proof uni response =
     (or_sentinel (strip_def_header uni (strip_fences (code_section response))),
      or_sentinel (normalize_bullets (strip_fences (proof_section response))))"

section \<open>main\_workflow\<close>

text \<open>
  The conversation is a list of role-tagged messages. The language model and the Lean
  runner are outside the repository's control: each is a function of the number of calls
  made so far and of its argument, so that any sequence of responses and of verification
  results is some choice of \<open>agent\<close> and \<open>verify\<close>.
\<close>

datatype role = System | User | Assistant

record message =
  role :: role
  content :: str

definition max_retries :: nat where
  "max_retries = 3"

definition code_marker :: str where
  "code_marker = cps ''{{code}}''"

definition proof_marker :: str where
  "proof_marker = cps ''{{proof}}''"

definition success_marker :: str where
  "success_marker = cps ''Lean code executed successfully.''"

text \<open>Lines 171 and 172: the code candidate first, the proof candidate into the result.\<close>

definition bind_template :: "str \<Rightarrow> str \<Rightarrow> str \<Rightarrow> str" where
  "bind_template task_lean_code code proof =
     str_replace proof_marker proof (str_replace code_marker code task_lean_code)"

text \<open>Line 184 (a plain string: the doubled braces stay) and lines 189 to 197 (an f-string:
  the doubled braces become single ones).\<close>

definition stub_feedback :: str where
  "stub_feedback =
     cps ''Your solution contains '' @ [39] @ sentinel @ [39] @
     cps ''. Please provide a complete implementation and proof without using '' @
     [39] @ sentinel @ [39] @
     cps ''. Just provide the exact code and proof body that should replace {{code}} and {{proof}} respectively.''"

definition failure_feedback :: "str \<Rightarrow> str" where
  "failure_feedback verification_result =
     cps ''Your solution had errors:'' @ [10] @ verification_result @ [10, 10] @
     cps ''Please fix the code and proof. Remember:'' @ [10] @
     cps ''1. ONLY provide the exact body for {code} and {proof}'' @ [10] @
     cps ''2. Do not include function definitions or extra formatting'' @ [10] @
     cps ''3. Avoid using dots (.) at the beginning of lines in the proof'' @ [10] @
     cps ''4. Do not use nested syntax like '' @ [39] @ cps ''by_cases h'' @ [39] @
     cps '' inside a case'' @ [10] @
     cps ''5. Use simple proof tactics like '' @ [39] @ cps ''simp'' @ [39] @ cps '', '' @
     [39] @ cps ''rfl'' @ [39] @ cps '', '' @ [39] @ cps ''exact'' @ [39] @ cps '', etc.''"

text \<open>
  The variables of the loop, and two counters that the source does not keep: the calls made
  to the model and to the verifier.
\<close>

record loop_state =
  messages :: "message list"
  retries :: nat
  generated_function_implementation :: str
  generated_proof :: str
  agent_calls :: nat
  verifier_calls :: nat

text \<open>
  One pass through the body of the \<open>while\<close> loop, lines 159 to 197: the state after it, and
  whether the pass left the loop by \<open>break\<close>.
\<close>

definition loop_body ::
  "(nat \<Rightarrow> message list \<Rightarrow> str) \<Rightarrow> (nat \<Rightarrow> str \<Rightarrow> str) \<Rightarrow> (nat \<Rightarrow> bool) \<Rightarrow> str \<Rightarrow>
   loop_state \<Rightarrow> loop_state \<times> bool" where
  "loop_body agent verify uni task_lean_code st =
     (let response = agent (agent_calls st) (messages st);
          cp = parse_code_proof uni response;
          temp_lean_code = bind_template task_lean_code (fst cp) (snd cp);
          verification_result = verify (verifier_calls st) temp_lean_code;
          st1 = st\<lparr>generated_function_implementation := fst cp,
                   generated_proof := snd cp,
                   agent_calls := agent_calls st + 1,
                   verifier_calls := verifier_calls st + 1\<rparr>
      in if str_contains success_marker verification_result then (st1, True)
         else if str_contains sentinel (fst cp) \<or> str_contains sentinel (snd cp)
         then (st1\<lparr>messages := messages st1 @
                    [\<lparr>role = Assistant, content = response\<rparr>,
                     \<lparr>role = User, content = stub_feedback\<rparr>]\<rparr>, False)
         else (st1\<lparr>messages := messages st1 @
                    [\<lparr>role = Assistant, content = response\<rparr>,
                     \<lparr>role = User, content = failure_feedback verification_result\<rparr>]\<rparr>,
               False))"

text \<open>The \<open>while\<close> loop, lines 158 to 201.\<close>

function main_loop ::
  "(nat \<Rightarrow> message list \<Rightarrow> str) \<Rightarrow> (nat \<Rightarrow> str \<Rightarrow> str) \<Rightarrow> (nat \<Rightarrow> bool) \<Rightarrow> str \<Rightarrow>
   loop_state \<Rightarrow> loop_state" where
  "main_loop agent verify uni task_lean_code st =
     (if retries st < max_retries
      then (let r = loop_body agent verify uni task_lean_code st
            in if snd r then fst r
               else main_loop agent verify uni task_lean_code
                      ((fst r)\<lparr>retries := retries (fst r) + 1\<rparr>))
      else st)"
  by pat_completeness auto
termination
  by (relation "measure (\<lambda>(agent, verify, uni, task_lean_code, st). max_retries - retries st)")
     (auto simp: loop_body_def Let_def)

declare main_loop.simps [simp del]

text \<open>
  The state the loop starts from (lines 53 to 56 and 153 to 156). The two prompt texts of
  lines 72 to 151 are not looked at by anything below and are taken as they come.
\<close>

definition initial_state :: "str \<Rightarrow> str \<Rightarrow> loop_state" where
  "initial_state system_prompt user_prompt =
     \<lparr>messages = [\<lparr>role = System, content = system_prompt\<rparr>,
                  \<lparr>role = User, content = user_prompt\<rparr>],
      retries = 0,
      generated_function_implementation = sentinel,
      generated_proof = sentinel,
      agent_calls = 0,
      verifier_calls = 0\<rparr>"

definition run_workflow ::
  "(nat \<Rightarrow> message list \<Rightarrow> str) \<Rightarrow> (nat \<Rightarrow> str \<Rightarrow> str) \<Rightarrow> (nat \<Rightarrow> bool) \<Rightarrow> str \<Rightarrow> str \<Rightarrow> str \<Rightarrow>
   loop_state" where
  "run_workflow agent verify uni system_prompt user_prompt task_lean_code =
     main_loop agent verify uni task_lean_code (initial_state system_prompt user_prompt)"

text \<open>Lines 204 to 207: the dictionary returned, as the pair of its two values.\<close>

definition main_workflow ::
  "(nat \<Rightarrow> message list \<Rightarrow> str) \<Rightarrow> (nat \<Rightarrow> str \<Rightarrow> str) \<Rightarrow> (nat \<Rightarrow> bool) \<Rightarrow> str \<Rightarrow> str \<Rightarrow> str \<Rightarrow>
   str \<times> str" where
  "main_workflow agent verify uni system_prompt user_prompt task_lean_code =
     (let st = run_workflow agent verify uni system_prompt user_prompt task_lean_code
      in (generated_function_implementation st, generated_proof st))"

section \<open>Notions the statements below are written in\<close>

text \<open>
  A marker is borderless when no proper non-empty prefix of it is also a suffix of it: two
  occurrences of such a marker in a text never overlap. \<open>join\<close> is \<open>sep.join(parts)\<close>;
  \<open>segments old s\<close> are the pieces of \<open>s\<close> between the occurrences of \<open>old\<close> that a scan
  from the left finds.
\<close>

definition borderless :: "str \<Rightarrow> bool" where
  "borderless m = list_all (\<lambda>k. take k m \<noteq> drop (length m - k) m) [1..<length m]"

fun join :: "str \<Rightarrow> str list \<Rightarrow> str" where
  "join sep [] = []"
| "join sep [g] = g"
| "join sep (g # h # gs) = g @ sep @ join sep (h # gs)"

function segments :: "str \<Rightarrow> str \<Rightarrow> str list" where
  "segments old [] = [[]]"
| "segments old (c # cs) =
     (if old \<noteq> [] \<and> prefix old (c # cs) then [] # segments old (drop (length old) (c # cs))
      else (case segments old cs of [] \<Rightarrow> [[c]] | g # gs \<Rightarrow> (c # g) # gs))"
  by pat_completeness auto
termination
  by (relation "measure (\<lambda>(old, s). length s)") auto

text \<open>
  Section extraction as the specification words it: the text after the first
  case-insensitive occurrence of a marker; the text up to the first such occurrence, or
  all of it.
\<close>

definition starts_with_ci :: "str \<Rightarrow> str \<Rightarrow> bool" where
  "starts_with_ci mk s = prefix (map lower mk) (map lower s)"

definition contains_ci :: "str \<Rightarrow> str \<Rightarrow> bool" where
  "contains_ci mk s = str_contains (map lower mk) (map lower s)"

fun after_marker :: "str \<Rightarrow> str \<Rightarrow> str option" where
  "after_marker mk [] = (if mk = [] then Some [] else None)"
| "after_marker mk (c # cs) =
     (if starts_with_ci mk (c # cs) then Some (drop (length mk) (c # cs))
      else after_marker mk cs)"

fun until_marker :: "str \<Rightarrow> str \<Rightarrow> str" where
  "until_marker mk [] = []"
| "until_marker mk (c # cs) =
     (if starts_with_ci mk (c # cs) then [] else c # until_marker mk cs)"

definition spec_code_section :: "str \<Rightarrow> str" where
  "spec_code_section response =
     (case after_marker (cps ''CODE:'') response of
        None \<Rightarrow> []
      | Some t \<Rightarrow> strip (until_marker (cps ''PROOF:'') t))"

definition spec_proof_section :: "str \<Rightarrow> str" where
  "spec_proof_section response =
     (case after_marker (cps ''PROOF:'') response of
        None \<Rightarrow> []
      | Some t \<Rightarrow> strip t)"

text \<open>
  What group 1 of \<open>CODE_RE\<close> holds when the pattern is matched at the text after the
  marker, and the outcome of one try of the lazy repetition at length \<open>k\<close> (both used in
  proofs only).
\<close>

fun code_capture :: "str \<Rightarrow> str" where
  "code_capture [] = []"
| "code_capture (c # cs) =
     (if starts_with_ci (cps ''PROOF:'') (c # cs) \<or> (c = 10 \<and> cs = []) then []
      else c # code_capture cs)"

definition code_try :: "str \<Rightarrow> nat \<Rightarrow> (str \<times> caps) option" where
  "code_try t k =
     first_some
       [if starts_with_ci (cps ''PROOF:'') (drop k t)
        then Some (drop 6 (drop k t), (Some t, Some (take (length t - length (drop k t)) t)))
        else None,
        if drop k t = [] \<or> drop k t = [10]
        then Some (drop k t, (Some t, Some (take (length t - length (drop k t)) t)))
        else None]"

text \<open>
  Bullet normalisation of one line as a reader of the specification expects it: a line
  whose first character after any leading whitespace is a period or one of the two bullet
  glyphs becomes the canonical bullet, one space, and what followed the glyph without its
  leading whitespace; any other line stays as it is. A line is proper when it holds a
  character that is not whitespace and, if that first one is a period or a bullet glyph,
  another one after it.
\<close>

definition norm_line :: "str \<Rightarrow> str" where
  "norm_line l =
     (case dropWhile is_space l of
        [] \<Rightarrow> l
      | x # xs \<Rightarrow> if is_glyph x \<or> is_dot x then canonical_bullet @ dropWhile is_space xs else l)"

definition proper_line :: "str \<Rightarrow> bool" where
  "proper_line l =
     (case dropWhile is_space l of
        [] \<Rightarrow> False
      | x # xs \<Rightarrow> if is_glyph x \<or> is_dot x then dropWhile is_space xs \<noteq> [] else True)"

text \<open>
  The effect of one of the two substitutions on a line, the shape the two bullet patterns
  share, and the scan of \<open>re_sub_from\<close> copying the first character of the rest of the
  text (all three used in proofs only).
\<close>

definition line_sub :: "(nat \<Rightarrow> bool) \<Rightarrow> str \<Rightarrow> str \<Rightarrow> str" where
  "line_sub g repl l =
     (case dropWhile is_space l of
        [] \<Rightarrow> l
      | x # xs \<Rightarrow> if g x then repl @ dropWhile is_space xs else l)"

definition line_start_re :: "(nat \<Rightarrow> bool) \<Rightarrow> item list" where
  "line_start_re g = [Bol, Star is_space, One g, Star is_space]"

definition copy_on :: "(nat \<Rightarrow> bool) \<Rightarrow> str \<Rightarrow> str \<Rightarrow> str" where
  "copy_on g repl t =
     (case t of [] \<Rightarrow> [] | c # r \<Rightarrow> c # re_sub_from (line_start_re g) repl (Some c) r)"

text \<open>
  The text reassembled from a candidate pair, in the format the system prompt asks the model
  for (lines 91 to 94): the CODE: marker, the code, the PROOF: marker, the proof, each on a
  line of its own. And a response in that format whose code section holds a definition
  header and, indented on the next line, a second one.
\<close>

definition reassemble :: "str \<Rightarrow> str \<Rightarrow> str" where
  "reassemble c p = cps ''CODE:'' @ [10] @ c @ [10] @ cps ''PROOF:'' @ [10] @ p"

definition two_header_response :: str where
  "two_header_response =
     cps ''CODE:'' @ [10] @ cps ''def a (x) : N :='' @ [10] @ cps ''  def b (y) : M := z'' @ [10] @
     cps ''PROOF:'' @ [10] @ cps ''rfl''"

section \<open>Evaluating the parser on a given text\<close>

lemmas re_eval = re_sub_def re_search_def group1_def CODE_RE_def PROOF_RE_def FENCE_OPEN_RE_def
  FENCE_CLOSE_RE_def DEF_RE_def BULLET_RE_def DOT_RE_def is_glyph_def is_dot_def is_space_def
  is_word_def any_char_def not_newline_def canonical_bullet_def strip_def lit_prefix_def
  lower_def cps_def re_sub_from.simps

lemmas parse_eval = parse_code_proof_def code_section_def proof_section_def strip_fences_def
  strip_def_header_def normalize_bullets_def or_sentinel_def sentinel_def

lemma parse_empty: "parse_code_proof (\<lambda>c. False) [] = (sentinel, sentinel)"
  by (simp add: parse_eval re_eval)

lemma parse_proof_only:
  "parse_code_proof (\<lambda>c. False) (cps ''PROOF:rfl'') = (sentinel, cps ''rfl'')"
  by (simp add: parse_eval re_eval)

section \<open>The retry loop\<close>

lemma main_loop_done: "\<not> retries st < max_retries \<Longrightarrow> main_loop agent verify uni t st = st"
  by (subst main_loop.simps) simp

lemma main_loop_break:
  "retries st < max_retries \<Longrightarrow> snd (loop_body agent verify uni t st) \<Longrightarrow>
   main_loop agent verify uni t st = fst (loop_body agent verify uni t st)"
  by (subst main_loop.simps) (simp add: Let_def)

lemma main_loop_again:
  "retries st < max_retries \<Longrightarrow> \<not> snd (loop_body agent verify uni t st) \<Longrightarrow>
   main_loop agent verify uni t st =
   main_loop agent verify uni t
     ((fst (loop_body agent verify uni t st))\<lparr>retries := retries (fst (loop_body agent verify uni t st)) + 1\<rparr>)"
  by (subst main_loop.simps) (simp add: Let_def)

lemma loop_body_counters:
  "agent_calls (fst (loop_body agent verify uni t st)) = agent_calls st + 1"
  "verifier_calls (fst (loop_body agent verify uni t st)) = verifier_calls st + 1"
  "retries (fst (loop_body agent verify uni t st)) = retries st"
  by (simp_all add: loop_body_def Let_def)

lemma main_loop_calls:
  "agent_calls (main_loop agent verify uni t st) \<le> agent_calls st + (max_retries - retries st) \<and>
   verifier_calls (main_loop agent verify uni t st) \<le> verifier_calls st + (max_retries - retries st)"
proof (induction agent verify uni t st rule: main_loop.induct)
  case (1 agent verify uni t st)
  show ?case
  proof (cases "retries st < max_retries")
    case False
    then show ?thesis by (simp add: main_loop_done)
  next
    case True
    define r where "r = loop_body agent verify uni t st"
    show ?thesis
    proof (cases "snd r")
      case True
      with \<open>retries st < max_retries\<close> show ?thesis
        unfolding r_def by (auto simp: main_loop_break loop_body_counters)
    next
      case False
      from "1.IH" [OF True r_def False] True
      have "agent_calls (main_loop agent verify uni t ((fst r)\<lparr>retries := retries (fst r) + 1\<rparr>))
              \<le> agent_calls st + (max_retries - retries st) \<and>
            verifier_calls (main_loop agent verify uni t ((fst r)\<lparr>retries := retries (fst r) + 1\<rparr>))
              \<le> verifier_calls st + (max_retries - retries st)"
        unfolding r_def by (auto simp: loop_body_counters)
      with True False show ?thesis
        unfolding r_def by (simp add: main_loop_again)
    qed
  qed
qed

lemma main_loop_messages:
  "prefix (messages st) (messages (main_loop agent verify uni t st)) \<and>
   length (messages (main_loop agent verify uni t st)) + 2 * retries st =
     length (messages st) + 2 * retries (main_loop agent verify uni t st)"
proof (induction agent verify uni t st rule: main_loop.induct)
  case (1 agent verify uni t st)
  show ?case
  proof (cases "retries st < max_retries")
    case False
    then show ?thesis by (simp add: main_loop_done)
  next
    case True
    define r where "r = loop_body agent verify uni t st"
    show ?thesis
    proof (cases "snd r")
      case True
      then have "messages (fst r) = messages st"
        unfolding r_def by (simp add: loop_body_def Let_def split: if_splits)
      with True \<open>retries st < max_retries\<close> show ?thesis
        unfolding r_def by (simp add: main_loop_break loop_body_counters)
    next
      case False
      then have m: "\<exists>a b. messages (fst r) = messages st @ [a, b]"
        unfolding r_def by (simp add: loop_body_def Let_def split: if_splits)
      let ?st' = "(fst r)\<lparr>retries := retries (fst r) + 1\<rparr>"
      from "1.IH" [OF True r_def False]
      have ih: "prefix (messages ?st') (messages (main_loop agent verify uni t ?st'))"
        "length (messages (main_loop agent verify uni t ?st')) + 2 * retries ?st' =
           length (messages ?st') + 2 * retries (main_loop agent verify uni t ?st')"
        by simp_all
      have eq: "main_loop agent verify uni t st = main_loop agent verify uni t ?st'"
        using True False unfolding r_def by (simp add: main_loop_again)
      from m obtain a b where ab: "messages (fst r) = messages st @ [a, b]" by blast
      have "prefix (messages st) (messages ?st')" using ab by simp
      from this ih(1) have p: "prefix (messages st) (messages (main_loop agent verify uni t ?st'))"
        by (rule prefix_order.trans)
      have "retries (fst r) = retries st" unfolding r_def by (simp add: loop_body_counters)
      with ih(2) ab
      have "length (messages (main_loop agent verify uni t ?st')) + 2 * retries st =
           length (messages st) + 2 * retries (main_loop agent verify uni t ?st')"
        by simp
      with p eq show ?thesis by simp
    qed
  qed
qed

lemma or_sentinel_nonempty: "or_sentinel s \<noteq> []"
  by (simp add: or_sentinel_def sentinel_def)

lemma parse_code_proof_nonempty:
  "fst (parse_code_proof uni response) \<noteq> []" "snd (parse_code_proof uni response) \<noteq> []"
  by (simp_all add: parse_code_proof_def or_sentinel_nonempty)

lemma loop_body_candidates:
  "generated_function_implementation (fst (loop_body agent verify uni t st)) =
     fst (parse_code_proof uni (agent (agent_calls st) (messages st)))"
  "generated_proof (fst (loop_body agent verify uni t st)) =
     snd (parse_code_proof uni (agent (agent_calls st) (messages st)))"
  by (simp_all add: loop_body_def Let_def)

lemma main_loop_candidates:
  "generated_function_implementation st \<noteq> [] \<Longrightarrow> generated_proof st \<noteq> [] \<Longrightarrow>
   generated_function_implementation (main_loop agent verify uni t st) \<noteq> [] \<and>
   generated_proof (main_loop agent verify uni t st) \<noteq> []"
proof (induction agent verify uni t st rule: main_loop.induct)
  case (1 agent verify uni t st)
  show ?case
  proof (cases "retries st < max_retries")
    case False
    with "1.prems" show ?thesis by (simp add: main_loop_done)
  next
    case True
    define r where "r = loop_body agent verify uni t st"
    have ne: "generated_function_implementation (fst r) \<noteq> []" "generated_proof (fst r) \<noteq> []"
      unfolding r_def by (simp_all add: loop_body_candidates parse_code_proof_nonempty)
    show ?thesis
    proof (cases "snd r")
      case True
      with \<open>retries st < max_retries\<close> ne show ?thesis
        unfolding r_def by (simp add: main_loop_break)
    next
      case False
      from "1.IH" [OF True r_def False] ne
      have "generated_function_implementation
              (main_loop agent verify uni t ((fst r)\<lparr>retries := retries (fst r) + 1\<rparr>)) \<noteq> [] \<and>
            generated_proof
              (main_loop agent verify uni t ((fst r)\<lparr>retries := retries (fst r) + 1\<rparr>)) \<noteq> []"
        by simp
      with True False show ?thesis
        unfolding r_def by (simp add: main_loop_again)
    qed
  qed
qed

lemma str_contains_self: "str_contains s s"
  by (cases s) simp_all

section \<open>Substitution into the template\<close>

lemma borderless_code_marker: "borderless code_marker"
  by (simp add: borderless_def code_marker_def cps_def upt_rec)

lemma borderless_proof_marker: "borderless proof_marker"
  by (simp add: borderless_def proof_marker_def cps_def upt_rec)

lemma borderless_no_straddle:
  assumes b: "borderless m" and p: "prefix m (u @ m @ v)" and u: "u \<noteq> []"
  shows "prefix m u"
proof (rule ccontr)
  assume np: "\<not> prefix m u"
  have lt: "length u < length m"
  proof (rule ccontr)
    assume "\<not> length u < length m"
    then have "length m \<le> length u" by simp
    with p have "prefix m u"
      by (metis prefix_length_prefix prefixI)
    with np show False by simp
  qed
  from p obtain z where z: "u @ m @ v = m @ z" by (auto simp: prefix_def)
  define k where "k = length m - length u"
  have "0 < length u" using u by simp
  with lt have k: "0 < k" "k < length m" unfolding k_def by arith+
  have m1: "take (length u) m = u"
    using z lt by (metis append_eq_conv_conj less_imp_le_nat take_append take_all_iff append_eq_append_conv_if)
  have "drop (length u) (m @ z) = drop (length u) m @ z" using lt by simp
  moreover have "drop (length u) (u @ m @ v) = m @ v" by simp
  ultimately have "m @ v = drop (length u) m @ z" using z by simp
  then have "take k (m @ v) = take k (drop (length u) m @ z)" by simp
  then have "take k m = drop (length u) m" using lt by (simp add: k_def)
  moreover have "length m - k = length u" using lt by (simp add: k_def)
  ultimately have "take k m = drop (length m - k) m" by simp
  moreover from b k have "take k m \<noteq> drop (length m - k) m"
    by (simp add: borderless_def list_all_iff)
  ultimately show False by simp
qed

lemma str_replace_at_occurrence:
  assumes b: "borderless m" and ne: "m \<noteq> []"
  shows "str_replace m new (u @ m @ v) = str_replace m new u @ new @ str_replace m new v"
proof (induction u rule: length_induct)
  case (1 u)
  show ?case
  proof (cases u)
    case Nil
    from ne obtain c cs where m: "m = c # cs" by (cases m) auto
    have "str_replace m new (m @ v) = new @ str_replace m new (drop (length m) (m @ v))"
      using ne by (simp add: m)
    with Nil ne show ?thesis by simp
  next
    case (Cons c cs)
    show ?thesis
    proof (cases "prefix m u")
      case True
      then obtain w where w: "u = m @ w" by (auto simp: prefix_def)
      from ne w have "length w < length u" by simp
      with 1 have ih: "str_replace m new (w @ m @ v) = str_replace m new w @ new @ str_replace m new v"
        by blast
      have pu: "prefix m (u @ m @ v)" using True by (simp add: prefix_def) (metis append.assoc True prefixE)
      have a: "str_replace m new u = new @ str_replace m new w"
        using True ne Cons w by (metis append_eq_conv_conj str_replace.simps(2))
      have "str_replace m new (u @ m @ v) = new @ str_replace m new (drop (length m) (u @ m @ v))"
        using pu ne Cons by simp
      also have "drop (length m) (u @ m @ v) = w @ m @ v" using w by simp
      finally show ?thesis using ih a by simp
    next
      case False
      have np: "\<not> prefix m (u @ m @ v)"
        using borderless_no_straddle [OF b, of u v] False Cons by auto
      have "length cs < length u" using Cons by simp
      with 1 have ih: "str_replace m new (cs @ m @ v) = str_replace m new cs @ new @ str_replace m new v"
        by blast
      from np False ne Cons ih show ?thesis by simp
    qed
  qed
qed


lemma segments_nonempty: "segments old s \<noteq> []"
  by (induction old s rule: segments.induct) (auto split: list.splits)

lemma join_Cons_hd: "join sep ((c # g) # gs) = c # join sep (g # gs)"
  by (cases gs) simp_all

lemma join_Nil_hd: "gs \<noteq> [] \<Longrightarrow> join sep ([] # gs) = sep @ join sep gs"
  by (cases gs) simp_all

lemma join_segments: "old \<noteq> [] \<Longrightarrow> join old (segments old s) = s"
proof (induction old s rule: segments.induct)
  case (1 old)
  show ?case by simp
next
  case (2 old c cs)
  show ?case
  proof (cases "prefix old (c # cs)")
    case True
    with 2 have "join old (segments old (drop (length old) (c # cs))) = drop (length old) (c # cs)"
      by simp
    moreover from True have "old @ drop (length old) (c # cs) = c # cs"
      by (metis append_eq_conv_conj prefixE)
    ultimately show ?thesis using True "2.prems"
      by (simp add: join_Nil_hd segments_nonempty del: drop.simps)
  next
    case False
    with 2 have ih: "join old (segments old cs) = cs" by simp
    obtain g gs where g: "segments old cs = g # gs"
      using segments_nonempty [of old cs] by (cases "segments old cs") auto
    with False ih show ?thesis by (simp add: join_Cons_hd)
  qed
qed

lemma join_segments_replace: "old \<noteq> [] \<Longrightarrow> join new (segments old s) = str_replace old new s"
proof (induction old s rule: segments.induct)
  case (1 old)
  then show ?case by simp
next
  case (2 old c cs)
  show ?case
  proof (cases "prefix old (c # cs)")
    case True
    with 2 have "join new (segments old (drop (length old) (c # cs))) =
                 str_replace old new (drop (length old) (c # cs))"
      by simp
    with True "2.prems" show ?thesis
      by (simp add: join_Nil_hd segments_nonempty del: drop.simps)
  next
    case False
    with 2 have ih: "join new (segments old cs) = str_replace old new cs" by simp
    obtain g gs where g: "segments old cs = g # gs"
      using segments_nonempty [of old cs] by (cases "segments old cs") auto
    with False ih "2.prems" show ?thesis by (simp add: join_Cons_hd)
  qed
qed

lemma prefix_hd_join: "prefix g (join sep (g # gs))"
  by (cases gs) simp_all

lemma segments_marker_free:
  "old \<noteq> [] \<Longrightarrow> list_all (\<lambda>g. \<not> str_contains old g) (segments old s)"
proof (induction old s rule: segments.induct)
  case (1 old)
  then show ?case by simp
next
  case (2 old c cs)
  show ?case
  proof (cases "prefix old (c # cs)")
    case True
    with 2 have "list_all (\<lambda>g. \<not> str_contains old g) (segments old (drop (length old) (c # cs)))"
      by simp
    with True "2.prems" show ?thesis by (simp del: drop.simps)
  next
    case False
    with 2 have ih: "list_all (\<lambda>g. \<not> str_contains old g) (segments old cs)" by simp
    obtain g gs where g: "segments old cs = g # gs"
      using segments_nonempty [of old cs] by (cases "segments old cs") auto
    have "prefix g cs"
      using join_segments [OF "2.prems", of cs] prefix_hd_join [of g old gs] by (simp add: g)
    then have "prefix (c # g) (c # cs)" by simp
    with False have "\<not> prefix old (c # g)"
      using prefix_order.trans by blast
    with False ih g show ?thesis by simp
  qed
qed

lemma code_marker_nonempty: "code_marker \<noteq> []"
  by (simp add: code_marker_def cps_def)

lemma proof_marker_nonempty: "proof_marker \<noteq> []"
  by (simp add: proof_marker_def cps_def)

section \<open>The two searches\<close>

lemma first_some_map_None: "(\<And>x. x \<in> set xs \<Longrightarrow> f x = None) \<Longrightarrow> first_some (map f xs) = None"
  by (induction xs) simp_all

lemma first_some_greedy:
  "first_some (map f (rev [0..<Suc n])) =
     (case f n of Some x \<Rightarrow> Some x | None \<Rightarrow> first_some (map f (rev [0..<n])))"
  by (simp split: option.splits)

lemma first_some_greedy_det:
  assumes "\<And>k. k < n \<Longrightarrow> f k = None"
  shows "first_some (map f (rev [0..<Suc n])) = f n"
proof -
  have "first_some (map f (rev [0..<n])) = None"
    using assms by (intro first_some_map_None) simp
  then show ?thesis by (cases "f n") simp_all
qed

lemma lit_prefix_ci: "lit_prefix True mk s = starts_with_ci mk s"
  by (simp add: lit_prefix_def starts_with_ci_def)

lemma takeWhile_any_char [simp]: "takeWhile any_char s = s"
  by (induction s) (simp_all add: any_char_def)

lemma len_markers [simp]: "length (cps ''CODE:'') = 5" "length (cps ''PROOF:'') = 6"
  by (simp_all add: cps_def)

lemma re_match_PROOF_RE:
  "re_match PROOF_RE prev s (None, None) =
     (if starts_with_ci (cps ''PROOF:'') s
      then Some ([], (Some (drop 6 s), Some (drop 6 s))) else None)"
  by (simp add: PROOF_RE_def lit_prefix_ci first_some_greedy del: upt_Suc)

lemma re_search_PROOF_RE:
  "map_option group1 (re_search_from PROOF_RE prev s) = after_marker (cps ''PROOF:'') s"
proof (induction s arbitrary: prev)
  case Nil
  show ?case by (simp add: re_match_PROOF_RE starts_with_ci_def cps_def)
next
  case (Cons c cs)
  show ?case
    using Cons [of "Some c"]
    by (simp add: re_match_PROOF_RE group1_def)
qed

lemma proof_section_spec: "proof_section s = spec_proof_section s"
proof -
  have "map_option group1 (re_search PROOF_RE s) = after_marker (cps ''PROOF:'') s"
    by (simp add: re_search_def re_search_PROOF_RE)
  then show ?thesis
    by (auto simp: proof_section_def spec_proof_section_def split: option.splits)
qed


lemma re_match_code_tail:
  "re_match [GOpen, Lazy any_char, GClose, Alt [Lit True (cps ''PROOF:'')] [Eos]] prev t cap =
     first_some (map (code_try t) [0..<Suc (length t)])"
proof -
  have k: "re_match [GClose, Alt [Lit True (cps ''PROOF:'')] [Eos]] p (drop k t) (Some t, c) =
           code_try t k" for k p c
    by (simp add: code_try_def lit_prefix_ci)
  have "re_match [GOpen, Lazy any_char, GClose, Alt [Lit True (cps ''PROOF:'')] [Eos]] prev t cap =
     first_some (map (\<lambda>k. re_match [GClose, Alt [Lit True (cps ''PROOF:'')] [Eos]]
                             (prev_after prev t k) (drop k t) (Some t, snd cap))
                     [0..<Suc (length (takeWhile any_char t))])"
    by (simp only: re_match.simps(11) re_match.simps(6))
  then show ?thesis
    by (simp only: k takeWhile_any_char)
qed

lemma re_match_CODE_RE_unfold:
  "re_match CODE_RE prev s (None, None) =
     (if starts_with_ci (cps ''CODE:'') s
      then first_some (map (code_try (drop 5 s)) [0..<Suc (length (drop 5 s))])
      else None)"
proof -
  have "re_match CODE_RE prev s (None, None) =
     (if lit_prefix True (cps ''CODE:'') s
      then re_match [GOpen, Lazy any_char, GClose, Alt [Lit True (cps ''PROOF:'')] [Eos]]
             (prev_after prev s (length (cps ''CODE:''))) (drop (length (cps ''CODE:'')) s) (None, None)
      else None)"
    by (simp only: CODE_RE_def re_match.simps)
  then show ?thesis
    by (simp only: re_match_code_tail lit_prefix_ci len_markers)
qed

lemma code_try_scan:
  "k0 \<le> length t \<Longrightarrow>
   \<exists>rest. first_some (map (code_try t) [k0..<Suc (length t)]) =
     Some (rest, (Some t, Some (take k0 t @ code_capture (drop k0 t))))"
proof (induction "length t - k0" arbitrary: k0)
  case 0
  then have k: "k0 = length t" by simp
  have "[k0..<Suc (length t)] = [length t]" using k by simp
  then show ?case
    by (simp add: code_try_def starts_with_ci_def cps_def k)
next
  case (Suc d)
  then have lt: "k0 < length t" by simp
  then have u: "[k0..<Suc (length t)] = k0 # [Suc k0..<Suc (length t)]"
    by (simp add: upt_conv_Cons)
  have dr: "drop k0 t = t ! k0 # drop (Suc k0) t"
    using lt by (simp add: Cons_nth_drop_Suc)
  have tk: "take (length t - length (drop k0 t)) t = take k0 t" using lt by simp
  show ?case
  proof (cases "starts_with_ci (cps ''PROOF:'') (drop k0 t) \<or> drop k0 t = [10]")
    case True
    then have "code_capture (drop k0 t) = []"
      by (subst dr) (use dr in auto)
    moreover from True have "\<exists>rest. code_try t k0 = Some (rest, (Some t, Some (take k0 t)))"
      unfolding code_try_def tk by auto
    ultimately show ?thesis unfolding u by auto
  next
    case False
    then have "code_try t k0 = None"
      using dr by (simp add: code_try_def)
    moreover have "code_capture (drop k0 t) = t ! k0 # code_capture (drop (Suc k0) t)"
      using False by (subst dr) (use dr in auto)
    moreover have "take (Suc k0) t = take k0 t @ [t ! k0]"
      using lt by (simp add: take_Suc_conv_app_nth)
    moreover from Suc have "\<exists>rest. first_some (map (code_try t) [Suc k0..<Suc (length t)]) =
       Some (rest, (Some t, Some (take (Suc k0) t @ code_capture (drop (Suc k0) t))))"
      using lt by (intro Suc.hyps(1)) simp_all
    ultimately show ?thesis unfolding u by simp
  qed
qed

lemma re_match_CODE_RE:
  "map_option group1 (re_match CODE_RE prev s (None, None)) =
     (if starts_with_ci (cps ''CODE:'') s then Some (code_capture (drop 5 s)) else None)"
proof (cases "starts_with_ci (cps ''CODE:'') s")
  case False
  then show ?thesis by (simp add: re_match_CODE_RE_unfold)
next
  case True
  from code_try_scan [of 0 "drop 5 s"] obtain rest where
    "first_some (map (code_try (drop 5 s)) [0..<Suc (length (drop 5 s))]) =
       Some (rest, (Some (drop 5 s), Some (code_capture (drop 5 s))))"
    by auto
  with True show ?thesis
    by (simp add: re_match_CODE_RE_unfold group1_def del: upt_Suc)
qed

lemma re_search_CODE_RE:
  "map_option group1 (re_search_from CODE_RE prev s) =
     map_option code_capture (after_marker (cps ''CODE:'') s)"
proof (induction s arbitrary: prev)
  case Nil
  show ?case using re_match_CODE_RE [of prev "[]"]
    by (simp add: starts_with_ci_def cps_def)
next
  case (Cons c cs)
  show ?case
  proof (cases "starts_with_ci (cps ''CODE:'') (c # cs)")
    case True
    with re_match_CODE_RE [of prev "c # cs"] show ?thesis
      by (auto split: option.splits)
  next
    case False
    with re_match_CODE_RE [of prev "c # cs"] Cons [of "Some c"] show ?thesis
      by (auto split: option.splits)
  qed
qed

lemma strip_snoc_space: "is_space c \<Longrightarrow> strip (s @ [c]) = strip s"
proof (cases "\<forall>x\<in>set s. is_space x")
  case True
  assume "is_space c"
  with True have "dropWhile is_space (s @ [c]) = []" "dropWhile is_space s = []"
    unfolding dropWhile_eq_Nil_conv by auto
  then show ?thesis by (simp only: strip_def)
next
  case False
  assume "is_space c"
  from False have "dropWhile is_space (s @ [c]) = dropWhile is_space s @ [c]"
    by (auto simp: dropWhile_append)
  with \<open>is_space c\<close> show ?thesis by (simp add: strip_def)
qed

lemma strip_Cons_space: "is_space c \<Longrightarrow> strip (c # s) = strip s"
  by (simp add: strip_def)

lemma code_capture_until:
  "until_marker (cps ''PROOF:'') t = code_capture t \<or>
   until_marker (cps ''PROOF:'') t = code_capture t @ [10]"
  by (induction t) auto

lemma strip_code_capture: "strip (code_capture t) = strip (until_marker (cps ''PROOF:'') t)"
proof -
  have "is_space 10" by (simp add: is_space_def)
  with code_capture_until [of t] show ?thesis
    by (auto simp: strip_snoc_space)
qed

lemma code_section_spec: "code_section s = spec_code_section s"
proof -
  have "map_option group1 (re_search CODE_RE s) = map_option code_capture (after_marker (cps ''CODE:'') s)"
    by (simp add: re_search_def re_search_CODE_RE)
  then show ?thesis
    by (auto simp: code_section_def spec_code_section_def strip_code_capture split: option.splits)
qed

lemma after_marker_None:
  "\<not> contains_ci mk s \<Longrightarrow> after_marker mk s = None"
  unfolding contains_ci_def
  by (induction s) (auto simp: starts_with_ci_def)

lemma normalize_empty:
  "strip_fences [] = []" "strip_def_header uni [] = []" "normalize_bullets [] = []"
  by (simp_all add: strip_fences_def strip_def_header_def normalize_bullets_def re_eval)

section \<open>The two bullet substitutions\<close>

lemma re_match_trailing_space:
  "re_match [Star is_space] p xs cap = Some (dropWhile is_space xs, cap)"
  by (simp add: first_some_greedy dropWhile_eq_drop del: upt_Suc)

lemma re_match_one_space:
  "re_match [One g, Star is_space] p u cap =
     (case u of [] \<Rightarrow> None
      | x # xs \<Rightarrow> if g x then Some (dropWhile is_space xs, cap) else None)"
  by (simp only: re_match.simps(3) re_match_trailing_space)

lemma re_match_line_start:
  assumes g: "\<And>x. g x \<Longrightarrow> \<not> is_space x"
  shows "re_match (line_start_re g) prev s cap =
     (if prev = None \<or> prev = Some 10
      then (case dropWhile is_space s of [] \<Rightarrow> None
            | x # xs \<Rightarrow> if g x then Some (dropWhile is_space xs, cap) else None)
      else None)"
proof -
  let ?n = "length (takeWhile is_space s)"
  let ?f = "\<lambda>k. re_match [One g, Star is_space] (prev_after prev s k) (drop k s) cap"
  have none: "?f k = None" if "k < ?n" for k
  proof -
    from that have "k < length s" using length_takeWhile_le [of is_space s] by simp
    then have d: "drop k s = s ! k # drop (Suc k) s" by (simp add: Cons_nth_drop_Suc)
    from that have "is_space (s ! k)"
      by (metis nth_mem set_takeWhileD takeWhile_nth)
    with g have "\<not> g (s ! k)" by blast
    then show ?thesis by (simp add: re_match_one_space d)
  qed
  have "re_match [Star is_space, One g, Star is_space] prev s cap =
        first_some (map ?f (rev [0..<Suc ?n]))"
    by (simp only: re_match.simps(4))
  also have "\<dots> = ?f ?n" using none by (rule first_some_greedy_det)
  also have "\<dots> = (case dropWhile is_space s of [] \<Rightarrow> None
            | x # xs \<Rightarrow> if g x then Some (dropWhile is_space xs, cap) else None)"
    by (simp only: re_match_one_space dropWhile_eq_drop)
  finally show ?thesis
    by (simp only: line_start_re_def re_match.simps(9))
qed

lemma sub_copy:
  assumes g: "\<And>x. g x \<Longrightarrow> \<not> is_space x"
  shows "p \<noteq> 10 \<Longrightarrow> 10 \<notin> set l \<Longrightarrow>
         re_sub_from (line_start_re g) repl (Some p) (l @ t) = l @ copy_on g repl t"
proof (induction l arbitrary: p)
  case Nil
  then show ?case
    by (subst re_sub_from.simps) (simp add: re_match_line_start [OF g] copy_on_def)
next
  case (Cons c cs)
  then have "re_sub_from (line_start_re g) repl (Some c) (cs @ t) = cs @ copy_on g repl t"
    by simp
  with Cons.prems show ?case
    by (subst re_sub_from.simps) (simp add: re_match_line_start [OF g])
qed

lemma sub_bol_eq:
  assumes g: "\<And>x. g x \<Longrightarrow> \<not> is_space x"
  shows "re_sub_from (line_start_re g) repl (Some 10) s = re_sub_from (line_start_re g) repl None s"
  by (subst re_sub_from.simps, subst (2) re_sub_from.simps) (simp add: re_match_line_start [OF g])


lemma sub_line:
  assumes g: "\<And>x. g x \<Longrightarrow> \<not> is_space x"
    and bol: "prev = None \<or> prev = Some 10"
    and nl: "10 \<notin> set l"
    and ok: "t = [] \<or> (case dropWhile is_space l of [] \<Rightarrow> False
                        | x # xs \<Rightarrow> if g x then dropWhile is_space xs \<noteq> [] else True)"
  shows "re_sub_from (line_start_re g) repl prev (l @ t) = line_sub g repl l @ copy_on g repl t"
proof (cases "dropWhile is_space l")
  case Nil
  with ok have t: "t = []" by simp
  have m: "re_match (line_start_re g) prev l (None, None) = None"
    by (simp only: re_match_line_start [OF g] Nil list.case if_cancel)
  have ls: "line_sub g repl l = l"
    by (simp only: line_sub_def Nil list.case)
  show ?thesis
  proof (cases l)
    case Nil
    with t m ls show ?thesis
      by (subst re_sub_from.simps) (simp add: copy_on_def)
  next
    case (Cons c cs)
    with nl have "re_sub_from (line_start_re g) repl (Some c) (cs @ []) = cs @ copy_on g repl []"
      by (intro sub_copy [OF g]) auto
    with Cons t m ls show ?thesis
      by (subst re_sub_from.simps) (simp add: copy_on_def)
  qed
next
  case (Cons x xs)
  then have x: "\<not> is_space x"
    by (metis hd_dropWhile list.sel(1) list.distinct(1))
  have ex: "\<exists>y\<in>set l. \<not> is_space y"
    using Cons by (metis dropWhile_eq_Nil_conv list.distinct(1))
  then obtain y where "y \<in> set l" "\<not> is_space y" by blast
  then have "dropWhile is_space (l @ t) = dropWhile is_space l @ t"
    by (rule dropWhile_append1)
  then have dl: "dropWhile is_space (l @ t) = x # xs @ t"
    by (simp only: Cons append_Cons)
  have sub: "set (x # xs) \<subseteq> set l"
    using set_dropWhileD [of _ is_space l] Cons by auto
  show ?thesis
  proof (cases "g x")
    case False
    with dl bol have m: "re_match (line_start_re g) prev (l @ t) (None, None) = None"
      by (simp add: re_match_line_start [OF g])
    from Cons obtain c cs where l: "l = c # cs" by (cases l) auto
    with nl have "re_sub_from (line_start_re g) repl (Some c) (cs @ t) = cs @ copy_on g repl t"
      by (intro sub_copy [OF g]) auto
    with l m False Cons show ?thesis
      by (subst re_sub_from.simps) (simp add: line_sub_def)
  next
    case True
    let ?b = "dropWhile is_space xs"
    have db: "dropWhile is_space (xs @ t) = ?b @ t"
    proof (cases "t = []")
      case True
      then show ?thesis by simp
    next
      case False
      with ok Cons \<open>g x\<close> have "?b \<noteq> []" by simp
      then have "\<exists>y\<in>set xs. \<not> is_space y"
        by (metis dropWhile_eq_Nil_conv)
      then obtain y where "y \<in> set xs" "\<not> is_space y" by blast
      then show ?thesis by (rule dropWhile_append1)
    qed
    with dl bol True have m: "re_match (line_start_re g) prev (l @ t) (None, None) =
        Some (?b @ t, (None, None))"
      by (simp add: re_match_line_start [OF g])
    have lb: "length ?b < length l"
    proof -
      have "length ?b \<le> length xs" by (rule length_dropWhile_le)
      also have "length xs < length (x # xs)" by simp
      also have "length (x # xs) \<le> length l"
        using Cons length_dropWhile_le [of is_space l] by simp
      finally show ?thesis .
    qed
    define j where "j = length (l @ t) - length (?b @ t) - 1"
    have j: "j < length l" using lb by (simp add: j_def)
    then have "(l @ t) ! j = l ! j" by (simp add: nth_append)
    with j nl have pj: "(l @ t) ! j \<noteq> 10" by (metis nth_mem)
    have "set ?b \<subseteq> set l" using sub set_dropWhileD [of _ is_space xs] by auto
    with nl have "10 \<notin> set ?b" by auto
    with pj have "re_sub_from (line_start_re g) repl (Some ((l @ t) ! j)) (?b @ t) =
                  ?b @ copy_on g repl t"
      by (intro sub_copy [OF g])
    moreover have "length (?b @ t) < length (l @ t)" using lb by simp
    ultimately show ?thesis
      using m True Cons unfolding j_def
      by (subst re_sub_from.simps) (simp add: line_sub_def)
  qed
qed


lemma glyph_not_space: "is_glyph x \<Longrightarrow> \<not> is_space x"
  by (auto simp: is_glyph_def is_space_def)

lemma dot_not_space: "is_dot x \<Longrightarrow> \<not> is_space x"
  by (auto simp: is_dot_def is_space_def)

lemma BULLET_RE_line_start: "BULLET_RE = line_start_re is_glyph"
  by (simp add: BULLET_RE_def line_start_re_def)

lemma DOT_RE_line_start: "DOT_RE = line_start_re is_dot"
  by (simp add: DOT_RE_def line_start_re_def)

lemma copy_on_newline:
  assumes g: "\<And>x. g x \<Longrightarrow> \<not> is_space x"
  shows "copy_on g repl (10 # rest) = 10 # re_sub (line_start_re g) repl rest"
  by (simp add: copy_on_def re_sub_def sub_bol_eq [OF g])

lemma proper_line_glyph:
  assumes "proper_line l"
  shows "case dropWhile is_space l of [] \<Rightarrow> False
          | x # xs \<Rightarrow> if is_glyph x then dropWhile is_space xs \<noteq> [] else True"
proof (cases "dropWhile is_space l")
  case Nil
  with assms have False by (simp only: proper_line_def list.case)
  then show ?thesis ..
next
  case (Cons x xs)
  from assms have "if is_glyph x \<or> is_dot x then dropWhile is_space xs \<noteq> [] else True"
    by (simp only: proper_line_def Cons list.case)
  then have "if is_glyph x then dropWhile is_space xs \<noteq> [] else True"
    by (simp split: if_splits)
  then show ?thesis by (simp only: Cons list.case)
qed

lemma bullet_pass:
  assumes "10 \<notin> set l" and "t = [] \<or> proper_line l"
  shows "re_sub BULLET_RE canonical_bullet (l @ t) =
           line_sub is_glyph canonical_bullet l @ copy_on is_glyph canonical_bullet t"
  unfolding re_sub_def BULLET_RE_line_start
proof (rule sub_line [OF glyph_not_space])
  show "10 \<notin> set l" by fact
  show "t = [] \<or> (case dropWhile is_space l of [] \<Rightarrow> False
          | x # xs \<Rightarrow> if is_glyph x then dropWhile is_space xs \<noteq> [] else True)"
    using assms(2) proper_line_glyph [of l] by blast
qed simp_all

lemma dot_pass:
  assumes "10 \<notin> set l"
    and "t = [] \<or> (case dropWhile is_space l of [] \<Rightarrow> False
          | x # xs \<Rightarrow> if is_dot x then dropWhile is_space xs \<noteq> [] else True)"
  shows "re_sub DOT_RE canonical_bullet (l @ t) =
           line_sub is_dot canonical_bullet l @ copy_on is_dot canonical_bullet t"
  unfolding re_sub_def DOT_RE_line_start
  by (rule sub_line [OF dot_not_space]) (use assms in simp_all)

lemma line_sub_glyph_facts:
  assumes nl: "10 \<notin> set l"
  shows "10 \<notin> set (line_sub is_glyph canonical_bullet l)"
    and "line_sub is_dot canonical_bullet (line_sub is_glyph canonical_bullet l) = norm_line l"
    and "proper_line l \<Longrightarrow>
         (case dropWhile is_space (line_sub is_glyph canonical_bullet l) of [] \<Rightarrow> False
          | x # xs \<Rightarrow> if is_dot x then dropWhile is_space xs \<noteq> [] else True)"
proof -
  have cb: "dropWhile is_space (canonical_bullet @ b) = 183 # 32 # b" for b
    by (simp add: canonical_bullet_def is_space_def)
  have nd: "\<not> is_dot 183" by (simp add: is_dot_def)
  show "10 \<notin> set (line_sub is_glyph canonical_bullet l)"
  proof (cases "dropWhile is_space l")
    case Nil
    have "line_sub is_glyph canonical_bullet l = l"
      by (simp only: line_sub_def Nil list.case)
    with nl show ?thesis by simp
  next
    case (Cons x xs)
    have "set (dropWhile is_space xs) \<subseteq> set l"
      using set_dropWhileD [of _ is_space xs] set_dropWhileD [of _ is_space l] Cons by auto
    with nl have "10 \<notin> set (dropWhile is_space xs)" by auto
    with nl show ?thesis
      by (simp only: line_sub_def Cons list.case) (simp add: canonical_bullet_def)
  qed
  show "line_sub is_dot canonical_bullet (line_sub is_glyph canonical_bullet l) = norm_line l"
  proof (cases "dropWhile is_space l")
    case Nil
    then show ?thesis by (simp only: line_sub_def norm_line_def list.case)
  next
    case (Cons x xs)
    show ?thesis
    proof (cases "is_glyph x")
      case True
      then have "line_sub is_glyph canonical_bullet l = canonical_bullet @ dropWhile is_space xs"
        by (simp only: line_sub_def Cons list.case if_True)
      moreover from True have "norm_line l = canonical_bullet @ dropWhile is_space xs"
        by (simp only: norm_line_def Cons list.case) simp
      ultimately show ?thesis
        by (simp only: line_sub_def [of is_dot] cb list.case) (simp add: nd)
    next
      case False
      then have "line_sub is_glyph canonical_bullet l = l"
        by (simp only: line_sub_def Cons list.case if_False)
      moreover from False have "norm_line l = line_sub is_dot canonical_bullet l"
        by (simp only: norm_line_def line_sub_def Cons list.case) simp
      ultimately show ?thesis by simp
    qed
  qed
  show "case dropWhile is_space (line_sub is_glyph canonical_bullet l) of [] \<Rightarrow> False
          | x # xs \<Rightarrow> if is_dot x then dropWhile is_space xs \<noteq> [] else True"
    if p: "proper_line l"
  proof (cases "dropWhile is_space l")
    case Nil
    with p have False by (simp only: proper_line_def list.case)
    then show ?thesis ..
  next
    case (Cons x xs)
    show ?thesis
    proof (cases "is_glyph x")
      case True
      then have "line_sub is_glyph canonical_bullet l = canonical_bullet @ dropWhile is_space xs"
        by (simp only: line_sub_def Cons list.case if_True)
      then show ?thesis by (simp only: cb list.case) (simp add: nd)
    next
      case False
      then have "line_sub is_glyph canonical_bullet l = l"
        by (simp only: line_sub_def Cons list.case if_False)
      moreover from p False have "if is_dot x then dropWhile is_space xs \<noteq> [] else True"
        by (simp only: proper_line_def Cons list.case) simp
      ultimately show ?thesis by (simp only: Cons list.case)
    qed
  qed
qed

lemma bullets_first_line:
  assumes "10 \<notin> set l"
  shows "normalize_bullets l = norm_line l \<and>
         (proper_line l \<longrightarrow>
            normalize_bullets (l @ 10 # rest) = norm_line l @ 10 # normalize_bullets rest)"
proof
  let ?l1 = "line_sub is_glyph canonical_bullet l"
  have "re_sub BULLET_RE canonical_bullet (l @ []) = ?l1 @ copy_on is_glyph canonical_bullet []"
    using assms by (intro bullet_pass) simp_all
  then have 1: "re_sub BULLET_RE canonical_bullet l = ?l1" by (simp add: copy_on_def)
  have "re_sub DOT_RE canonical_bullet (?l1 @ []) =
          line_sub is_dot canonical_bullet ?l1 @ copy_on is_dot canonical_bullet []"
    using line_sub_glyph_facts(1) [OF assms] by (intro dot_pass) simp_all
  then have "re_sub DOT_RE canonical_bullet ?l1 = norm_line l"
    by (simp add: copy_on_def line_sub_glyph_facts(2) [OF assms])
  with 1 show "normalize_bullets l = norm_line l"
    by (simp add: normalize_bullets_def)
  show "proper_line l \<longrightarrow>
          normalize_bullets (l @ 10 # rest) = norm_line l @ 10 # normalize_bullets rest"
  proof
    assume p: "proper_line l"
    let ?r1 = "re_sub BULLET_RE canonical_bullet rest"
    have "re_sub BULLET_RE canonical_bullet (l @ 10 # rest) =
            ?l1 @ copy_on is_glyph canonical_bullet (10 # rest)"
      using assms p by (intro bullet_pass) simp_all
    then have a: "re_sub BULLET_RE canonical_bullet (l @ 10 # rest) = ?l1 @ 10 # ?r1"
      by (simp add: copy_on_newline [OF glyph_not_space] BULLET_RE_line_start)
    have "re_sub DOT_RE canonical_bullet (?l1 @ 10 # ?r1) =
            line_sub is_dot canonical_bullet ?l1 @ copy_on is_dot canonical_bullet (10 # ?r1)"
      using line_sub_glyph_facts(1) [OF assms] line_sub_glyph_facts(3) [OF assms p]
      by (intro dot_pass) simp_all
    then have "re_sub DOT_RE canonical_bullet (?l1 @ 10 # ?r1) =
            norm_line l @ 10 # re_sub DOT_RE canonical_bullet ?r1"
      by (simp add: copy_on_newline [OF dot_not_space] DOT_RE_line_start
          line_sub_glyph_facts(2) [OF assms])
    with a show "normalize_bullets (l @ 10 # rest) = norm_line l @ 10 # normalize_bullets rest"
      by (simp add: normalize_bullets_def)
  qed
qed

lemma bullets_all_lines:
  assumes "\<forall>l\<in>set ls. 10 \<notin> set l" and "\<forall>l\<in>set (butlast ls). proper_line l"
  shows "normalize_bullets (join [10] ls) = join [10] (map norm_line ls)"
  using assms
proof (induction ls)
  case Nil
  show ?case by (simp add: normalize_empty)
next
  case (Cons l ls)
  then have nl: "10 \<notin> set l" by simp
  show ?case
  proof (cases ls)
    case Nil
    with bullets_first_line [OF nl] show ?thesis by simp
  next
    case (Cons l' ls')
    with Cons.prems have p: "proper_line l" by simp
    from Cons.prems \<open>ls = l' # ls'\<close> have "\<forall>l\<in>set ls. 10 \<notin> set l" "\<forall>l\<in>set (butlast ls). proper_line l"
      by simp_all
    then have ih: "normalize_bullets (join [10] ls) = join [10] (map norm_line ls)"
      by (rule Cons.IH)
    from bullets_first_line [OF nl, of "join [10] ls"] p
    have "normalize_bullets (l @ 10 # join [10] ls) = norm_line l @ 10 # normalize_bullets (join [10] ls)"
      by simp
    with ih \<open>ls = l' # ls'\<close> show ?thesis by simp
  qed
qed

section \<open>Parsing a reassembled pair\<close>

lemma prefix_before_foreign:
  assumes "prefix m (u @ x # v)" and "x \<notin> set m"
  shows "prefix m u"
proof (cases "length m \<le> length u")
  case True
  from assms(1) have "prefix m (u @ (x # v))" by simp
  with True show ?thesis
    by (metis prefix_length_prefix prefixI)
next
  case False
  then have lt: "length u < length m" by simp
  from assms(1) obtain z where z: "u @ x # v = m @ z" by (auto simp: prefix_def)
  then have "(u @ x # v) ! length u = (m @ z) ! length u" by simp
  then have "x = m ! length u" using lt by (simp add: nth_append)
  with lt have "x \<in> set m" by simp
  with assms(2) show ?thesis by simp
qed

lemma lower_proof_marker: "map lower (cps ''PROOF:'') = [112, 114, 111, 111, 102, 58]"
  by (simp add: cps_def lower_def)

lemma no_start_across:
  assumes "\<not> starts_with_ci (cps ''PROOF:'') u"
  shows "\<not> starts_with_ci (cps ''PROOF:'') (u @ 10 # v)"
proof
  assume "starts_with_ci (cps ''PROOF:'') (u @ 10 # v)"
  then have "prefix (map lower (cps ''PROOF:'')) (map lower u @ 10 # map lower v)"
    by (simp add: starts_with_ci_def lower_def)
  moreover have "10 \<notin> set (map lower (cps ''PROOF:''))"
    by (simp add: lower_proof_marker)
  ultimately have "prefix (map lower (cps ''PROOF:'')) (map lower u)"
    by (rule prefix_before_foreign)
  with assms show False by (simp add: starts_with_ci_def)
qed

lemma starts_with_self: "starts_with_ci mk (mk @ z)"
  by (simp add: starts_with_ci_def)

lemma after_marker_self: "mk \<noteq> [] \<Longrightarrow> after_marker mk (mk @ z) = Some z"
proof -
  assume "mk \<noteq> []"
  then obtain a l where mk: "mk = a # l" by (cases mk) auto
  have "starts_with_ci (a # l) (a # l @ z)"
    using starts_with_self [of "a # l" z] by simp
  then show ?thesis unfolding mk by simp
qed

lemma cps_nonempty: "cps ''CODE:'' \<noteq> []" "cps ''PROOF:'' \<noteq> []"
  by (simp_all add: cps_def)

lemma until_marker_reassembled:
  "\<not> contains_ci (cps ''PROOF:'') c \<Longrightarrow>
   until_marker (cps ''PROOF:'') (c @ 10 # cps ''PROOF:'' @ z) = c @ [10]"
proof (induction c)
  case Nil
  have "\<not> starts_with_ci (cps ''PROOF:'') (10 # cps ''PROOF:'' @ z)"
    by (simp add: starts_with_ci_def lower_proof_marker lower_def)
  moreover have "until_marker (cps ''PROOF:'') (cps ''PROOF:'' @ z) = []"
    using starts_with_self [of "cps ''PROOF:''" z] by (cases "cps ''PROOF:'' @ z") simp_all
  ultimately show ?case by simp
next
  case (Cons a c)
  then have ns: "\<not> starts_with_ci (cps ''PROOF:'') (a # c)" and nc: "\<not> contains_ci (cps ''PROOF:'') c"
    by (simp_all add: contains_ci_def starts_with_ci_def)
  from ns have "\<not> starts_with_ci (cps ''PROOF:'') ((a # c) @ 10 # cps ''PROOF:'' @ z)"
    by (rule no_start_across)
  with Cons.IH [OF nc] show ?case by simp
qed

lemma after_marker_reassembled:
  "\<not> contains_ci (cps ''PROOF:'') c \<Longrightarrow>
   after_marker (cps ''PROOF:'') (c @ 10 # cps ''PROOF:'' @ z) = Some z"
proof (induction c)
  case Nil
  have "\<not> starts_with_ci (cps ''PROOF:'') (10 # cps ''PROOF:'' @ z)"
    by (simp add: starts_with_ci_def lower_proof_marker lower_def)
  moreover have "after_marker (cps ''PROOF:'') (cps ''PROOF:'' @ z) = Some z"
    by (rule after_marker_self [OF cps_nonempty(2)])
  ultimately show ?case by simp
next
  case (Cons a c)
  then have ns: "\<not> starts_with_ci (cps ''PROOF:'') (a # c)" and nc: "\<not> contains_ci (cps ''PROOF:'') c"
    by (simp_all add: contains_ci_def starts_with_ci_def)
  from ns have "\<not> starts_with_ci (cps ''PROOF:'') ((a # c) @ 10 # cps ''PROOF:'' @ z)"
    by (rule no_start_across)
  with Cons.IH [OF nc] show ?case by simp
qed

lemma space_10: "is_space 10"
  by (simp add: is_space_def)

lemma code_section_reassemble:
  assumes "\<not> contains_ci (cps ''PROOF:'') c" and "strip c = c"
  shows "code_section (reassemble c p) = c"
proof -
  have "after_marker (cps ''CODE:'') (cps ''CODE:'' @ 10 # c @ 10 # cps ''PROOF:'' @ 10 # p) =
        Some (10 # c @ 10 # cps ''PROOF:'' @ 10 # p)"
    by (rule after_marker_self [OF cps_nonempty(1)])
  moreover have "until_marker (cps ''PROOF:'') (10 # c @ 10 # cps ''PROOF:'' @ 10 # p) = 10 # c @ [10]"
  proof -
    have "\<not> starts_with_ci (cps ''PROOF:'') (10 # c @ 10 # cps ''PROOF:'' @ 10 # p)"
      by (simp add: starts_with_ci_def lower_proof_marker lower_def)
    then show ?thesis
      using until_marker_reassembled [OF assms(1), of "10 # p"] by simp
  qed
  moreover have "strip (10 # c @ [10]) = strip c"
    using strip_snoc_space [OF space_10, of "10 # c"] strip_Cons_space [OF space_10, of c] by simp
  ultimately show ?thesis
    using assms(2) by (simp add: code_section_spec spec_code_section_def reassemble_def)
qed

lemma proof_section_reassemble:
  assumes "\<not> contains_ci (cps ''PROOF:'') c" and "strip p = p"
  shows "proof_section (reassemble c p) = p"
proof -
  have "after_marker (cps ''PROOF:'') (cps ''CODE:'' @ 10 # c @ 10 # cps ''PROOF:'' @ 10 # p) =
        after_marker (cps ''PROOF:'') (c @ 10 # cps ''PROOF:'' @ 10 # p)"
    by (simp add: cps_def starts_with_ci_def lower_def)
  also have "\<dots> = Some (10 # p)"
    by (rule after_marker_reassembled [OF assms(1)])
  finally show ?thesis
    using assms(2) strip_Cons_space [OF space_10, of p]
    by (simp add: proof_section_spec spec_proof_section_def reassemble_def)
qed

section \<open>Claims about the retry loop\<close>

text \<open>
  Claim C2. When the verification result lacks the success marker and at least one of the
  two parsed candidates equals the sentinel (in particular when exactly one does), the pass
  through the loop takes the stub branch: it appends the assistant's raw response and the
  user message that asks for a complete solution without the sentinel, and does not leave
  the loop.
\<close>

theorem C2_stub_branch:
  assumes "response = agent (agent_calls st) (messages st)"
    and "cp = parse_code_proof uni response"
    and "\<not> str_contains success_marker
             (verify (verifier_calls st) (bind_template t (fst cp) (snd cp)))"
    and "fst cp = sentinel \<or> snd cp = sentinel"
  shows "loop_body agent verify uni t st =
           (st\<lparr>messages := messages st @
                   [\<lparr>role = Assistant, content = response\<rparr>,
                    \<lparr>role = User, content = stub_feedback\<rparr>],
               generated_function_implementation := fst cp,
               generated_proof := snd cp,
               agent_calls := agent_calls st + 1,
               verifier_calls := verifier_calls st + 1\<rparr>, False)"
proof -
  from assms(4) have "str_contains sentinel (fst cp) \<or> str_contains sentinel (snd cp)"
    using str_contains_self [of sentinel] by auto
  with assms(1-3) show ?thesis
    by (simp add: loop_body_def Let_def)
qed

theorem C2_stub_branch_witness:
  "\<not> str_contains success_marker ([]::str) \<and>
   parse_code_proof (\<lambda>c. False) (cps ''PROOF:rfl'') = (sentinel, cps ''rfl'') \<and>
   cps ''rfl'' \<noteq> sentinel \<and>
   loop_body (\<lambda>n ms. cps ''PROOF:rfl'') (\<lambda>n s. []) (\<lambda>c. False) (cps ''{{code}} {{proof}}'')
       (initial_state [] []) =
     ((initial_state [] [])
        \<lparr>messages := messages (initial_state [] []) @
            [\<lparr>role = Assistant, content = cps ''PROOF:rfl''\<rparr>,
             \<lparr>role = User, content = stub_feedback\<rparr>],
         generated_function_implementation := sentinel,
         generated_proof := cps ''rfl'',
         agent_calls := 1,
         verifier_calls := 1\<rparr>, False)"
proof -
  let ?st = "initial_state [] []"
  have a: "cps ''PROOF:rfl'' = (\<lambda>n ms. cps ''PROOF:rfl'') (agent_calls ?st) (messages ?st)"
    by simp
  have p: "(sentinel, cps ''rfl'') = parse_code_proof (\<lambda>c. False) (cps ''PROOF:rfl'')"
    by (simp add: parse_proof_only)
  have n: "\<not> str_contains success_marker
      ((\<lambda>n s. []) (verifier_calls ?st)
         (bind_template (cps ''{{code}} {{proof}}'') (fst (sentinel, cps ''rfl'')) (snd (sentinel, cps ''rfl''))))"
    by (simp add: success_marker_def cps_def)
  have o: "fst (sentinel, cps ''rfl'') = sentinel \<or> snd (sentinel, cps ''rfl'') = sentinel"
    by simp
  have ne: "cps ''rfl'' \<noteq> sentinel" by (simp add: cps_def sentinel_def)
  from C2_stub_branch [OF a p n o] ne parse_proof_only show ?thesis
    by (simp add: initial_state_def success_marker_def cps_def)
qed

text \<open>
  Claim C4. When the verifier's text contains the success marker, the loop ends at once
  with the candidates of this attempt, whatever they are: the conversation and the retry
  counter are as they were.
\<close>

theorem C4_success_first:
  assumes "retries st < max_retries"
    and "cp = parse_code_proof uni (agent (agent_calls st) (messages st))"
    and "str_contains success_marker
           (verify (verifier_calls st) (bind_template t (fst cp) (snd cp)))"
  shows "main_loop agent verify uni t st =
           st\<lparr>generated_function_implementation := fst cp,
              generated_proof := snd cp,
              agent_calls := agent_calls st + 1,
              verifier_calls := verifier_calls st + 1\<rparr>"
proof -
  from assms(2,3) have "loop_body agent verify uni t st =
      (st\<lparr>generated_function_implementation := fst cp, generated_proof := snd cp,
          agent_calls := agent_calls st + 1, verifier_calls := verifier_calls st + 1\<rparr>, True)"
    by (simp add: loop_body_def Let_def)
  with assms(1) show ?thesis
    by (simp add: main_loop_break)
qed

theorem C4_success_first_witness:
  "retries (initial_state [] []) < max_retries \<and>
   str_contains success_marker ((\<lambda>n s. success_marker) (0::nat) ([]::str)) \<and>
   main_loop (\<lambda>n ms. []) (\<lambda>n s. success_marker) (\<lambda>c. False) [] (initial_state [] []) =
     (initial_state [] [])\<lparr>agent_calls := 1, verifier_calls := 1\<rparr>"
proof -
  have r: "retries (initial_state [] []) < max_retries"
    by (simp add: initial_state_def max_retries_def)
  have p: "(sentinel, sentinel) =
      parse_code_proof (\<lambda>c. False) ((\<lambda>n ms. []) (agent_calls (initial_state [] [])) (messages (initial_state [] [])))"
    by (simp add: parse_empty)
  have s: "str_contains success_marker
      ((\<lambda>n s. success_marker) (verifier_calls (initial_state [] []))
         (bind_template [] (fst (sentinel, sentinel)) (snd (sentinel, sentinel))))"
    by (simp add: str_contains_self)
  from C4_success_first [OF r p s] r show ?thesis
    by (simp add: initial_state_def str_contains_self)
qed

text \<open>
  Claim C5. Whatever the model answers and the verifier reports, the workflow calls each at
  most \<open>max_retries\<close> times, \<open>max_retries\<close> is 3, and the workflow (a total function: the
  loop's termination is proved with its definition) returns a pair of non-empty candidates.
\<close>

theorem C5_retry_budget:
  "agent_calls (run_workflow agent verify uni system_prompt user_prompt t) \<le> max_retries \<and>
   verifier_calls (run_workflow agent verify uni system_prompt user_prompt t) \<le> max_retries \<and>
   max_retries = 3 \<and>
   fst (main_workflow agent verify uni system_prompt user_prompt t) \<noteq> [] \<and>
   snd (main_workflow agent verify uni system_prompt user_prompt t) \<noteq> []"
proof -
  let ?st = "initial_state system_prompt user_prompt"
  have "agent_calls (main_loop agent verify uni t ?st) \<le> agent_calls ?st + (max_retries - retries ?st)"
    "verifier_calls (main_loop agent verify uni t ?st) \<le> verifier_calls ?st + (max_retries - retries ?st)"
    using main_loop_calls [of agent verify uni t ?st] by simp_all
  then have calls: "agent_calls (main_loop agent verify uni t ?st) \<le> max_retries"
    "verifier_calls (main_loop agent verify uni t ?st) \<le> max_retries"
    by (simp_all add: initial_state_def)
  have "generated_function_implementation ?st \<noteq> []" "generated_proof ?st \<noteq> []"
    by (simp_all add: initial_state_def sentinel_def)
  then have "generated_function_implementation (main_loop agent verify uni t ?st) \<noteq> [] \<and>
             generated_proof (main_loop agent verify uni t ?st) \<noteq> []"
    by (rule main_loop_candidates)
  with calls show ?thesis
    by (simp add: run_workflow_def main_workflow_def max_retries_def Let_def)
qed

text \<open>
  Claim C9. The conversation only grows at its end. A pass through the loop leaves the
  loop exactly when the verification result holds the success marker, and then appends
  nothing; on every other pass it appends exactly two messages to the messages it found,
  the assistant's raw response and one user message (the stub feedback or the failure
  feedback), and the loop goes on from that state with one more retry counted. The whole
  loop keeps the messages it started with as a prefix, and adds two messages for each retry
  it counts.
\<close>

theorem C9_conversation_append_only:
  "(let response = agent (agent_calls st) (messages st);
        cp = parse_code_proof uni response;
        verification_result = verify (verifier_calls st) (bind_template t (fst cp) (snd cp));
        success = str_contains success_marker verification_result;
        body = loop_body agent verify uni t st
    in snd body = success \<and>
       messages (fst body) =
         messages st @
           (if success then []
            else [\<lparr>role = Assistant, content = response\<rparr>,
                  \<lparr>role = User,
                   content =
                     (if str_contains sentinel (fst cp) \<or> str_contains sentinel (snd cp)
                      then stub_feedback
                      else failure_feedback verification_result)\<rparr>]) \<and>
       retries (fst body) = retries st \<and>
       main_loop agent verify uni t st =
         (if retries st < max_retries
          then if success then fst body
               else main_loop agent verify uni t ((fst body)\<lparr>retries := retries st + 1\<rparr>)
          else st)) \<and>
   prefix (messages st) (messages (main_loop agent verify uni t st)) \<and>
   length (messages (main_loop agent verify uni t st)) + 2 * retries st =
     length (messages st) + 2 * retries (main_loop agent verify uni t st)"
proof -
  have "let response = agent (agent_calls st) (messages st);
        cp = parse_code_proof uni response;
        verification_result = verify (verifier_calls st) (bind_template t (fst cp) (snd cp));
        success = str_contains success_marker verification_result;
        body = loop_body agent verify uni t st
    in snd body = success \<and>
       messages (fst body) =
         messages st @
           (if success then []
            else [\<lparr>role = Assistant, content = response\<rparr>,
                  \<lparr>role = User,
                   content =
                     (if str_contains sentinel (fst cp) \<or> str_contains sentinel (snd cp)
                      then stub_feedback
                      else failure_feedback verification_result)\<rparr>]) \<and>
       retries (fst body) = retries st \<and>
       main_loop agent verify uni t st =
         (if retries st < max_retries
          then if success then fst body
               else main_loop agent verify uni t ((fst body)\<lparr>retries := retries st + 1\<rparr>)
          else st)"
    by (subst main_loop.simps) (simp add: loop_body_def Let_def)
  with main_loop_messages [of st agent verify uni t] show ?thesis
    by blast
qed

section \<open>Claims about binding the template\<close>

text \<open>
  Claim C1, as stated, fails: \<open>str.replace\<close> without a count replaces every occurrence of
  a marker, not only the first. A template that holds the code marker twice has both
  occurrences replaced.
\<close>

theorem C1_counterexample:
  "bind_template (cps ''{{code}}{{code}}'') (cps ''x'') (cps ''y'') = cps ''xx'' \<and>
   bind_template (cps ''{{code}}{{code}}'') (cps ''x'') (cps ''y'') \<noteq> cps ''x{{code}}''"
  by (simp add: bind_template_def code_marker_def proof_marker_def cps_def)

text \<open>
  Claim C1, amended. Binding replaces every occurrence of the code marker in the template by
  the code candidate, and then every occurrence of the proof marker in that text by the
  proof candidate; the text between the replaced occurrences is unchanged. The template is
  a list of marker-free segments separated by the code marker, the intermediate text is the
  same segments separated by the code candidate, and the same holds of the intermediate
  text, the proof marker and the bound text.
\<close>

theorem C1_replaces_every_occurrence:
  "\<exists>segs segs'.
     list_all (\<lambda>g. \<not> str_contains code_marker g) segs \<and>
     list_all (\<lambda>g. \<not> str_contains proof_marker g) segs' \<and>
     t = join code_marker segs \<and>
     join code segs = join proof_marker segs' \<and>
     bind_template t code proof = join proof segs'"
proof -
  let ?segs = "segments code_marker t"
  let ?mid = "str_replace code_marker code t"
  let ?segs' = "segments proof_marker ?mid"
  have "list_all (\<lambda>g. \<not> str_contains code_marker g) ?segs"
    by (rule segments_marker_free [OF code_marker_nonempty])
  moreover have "list_all (\<lambda>g. \<not> str_contains proof_marker g) ?segs'"
    by (rule segments_marker_free [OF proof_marker_nonempty])
  moreover have "t = join code_marker ?segs"
    by (simp add: join_segments [OF code_marker_nonempty])
  moreover have "join code ?segs = join proof_marker ?segs'"
    by (simp add: join_segments [OF proof_marker_nonempty]
        join_segments_replace [OF code_marker_nonempty])
  moreover have "bind_template t code proof = join proof ?segs'"
    by (simp add: bind_template_def join_segments_replace [OF proof_marker_nonempty])
  ultimately show ?thesis by blast
qed

text \<open>
  Claim C10. The code candidate is substituted first and the proof candidate into the
  result: where the template holds the code marker and the code candidate itself holds the
  proof marker, that occurrence inside the substituted code is replaced by the proof
  candidate in the bound text.
\<close>

theorem C10_code_then_proof:
  "bind_template (pre @ code_marker @ post) (c1 @ proof_marker @ c2) proof =
     str_replace proof_marker proof
       (str_replace code_marker (c1 @ proof_marker @ c2) pre @ c1) @
     proof @
     str_replace proof_marker proof
       (c2 @ str_replace code_marker (c1 @ proof_marker @ c2) post)"
proof -
  let ?c = "c1 @ proof_marker @ c2"
  have "str_replace code_marker ?c (pre @ code_marker @ post) =
        str_replace code_marker ?c pre @ ?c @ str_replace code_marker ?c post"
    by (rule str_replace_at_occurrence [OF borderless_code_marker code_marker_nonempty])
  also have "\<dots> = (str_replace code_marker ?c pre @ c1) @ proof_marker @
                   (c2 @ str_replace code_marker ?c post)"
    by simp
  finally show ?thesis
    unfolding bind_template_def
    by (simp only: str_replace_at_occurrence [OF borderless_proof_marker proof_marker_nonempty])
qed

section \<open>Claims about the parser\<close>

text \<open>
  Claim C6. A response that holds neither marker (in any letter case) parses to the sentinel
  pair; and whatever the response, the parser (a total function) returns two non-empty
  fields.
\<close>

theorem C6_no_markers_sentinel_pair:
  "(\<not> contains_ci (cps ''CODE:'') response \<and> \<not> contains_ci (cps ''PROOF:'') response \<longrightarrow>
      parse_code_proof uni response = (sentinel, sentinel)) \<and>
   fst (parse_code_proof uni response) \<noteq> [] \<and>
   snd (parse_code_proof uni response) \<noteq> []"
proof -
  have "parse_code_proof uni response = (sentinel, sentinel)"
    if "\<not> contains_ci (cps ''CODE:'') response" "\<not> contains_ci (cps ''PROOF:'') response"
  proof -
    from that have "code_section response = []" "proof_section response = []"
      by (simp_all add: code_section_spec proof_section_spec spec_code_section_def
          spec_proof_section_def after_marker_None)
    then show ?thesis
      by (simp add: parse_code_proof_def normalize_empty or_sentinel_def)
  qed
  then show ?thesis
    by (simp add: parse_code_proof_nonempty)
qed

theorem C6_no_markers_sentinel_pair_witness:
  "\<not> contains_ci (cps ''CODE:'') (cps ''hello world'') \<and>
   \<not> contains_ci (cps ''PROOF:'') (cps ''hello world'') \<and>
   parse_code_proof (\<lambda>c. False) (cps ''hello world'') = (sentinel, sentinel)"
proof -
  have a: "\<not> contains_ci (cps ''CODE:'') (cps ''hello world'')"
    by (simp add: contains_ci_def cps_def lower_def)
  have b: "\<not> contains_ci (cps ''PROOF:'') (cps ''hello world'')"
    by (simp add: contains_ci_def cps_def lower_def)
  from C6_no_markers_sentinel_pair [of "cps ''hello world''" "\<lambda>c. False"] a b show ?thesis
    by blast
qed

text \<open>
  Claim C7. Section extraction is case-insensitive and reads the first match of each
  marker: the code section is the stripped text between the first CODE: marker and the
  next PROOF: marker, or the end of the text; the proof section is the stripped text from
  the first PROOF: marker to the end of the text; a marker that is absent gives the empty
  text.
\<close>

theorem C7_section_extraction:
  "code_section response = spec_code_section response \<and>
   proof_section response = spec_proof_section response"
  by (simp add: code_section_spec proof_section_spec)

text \<open>
  Claim C3, as stated, fails: the whitespace the two patterns allow before and after the
  glyph covers indentation and line feeds. After the line \<open>a\<close>, the indented line of two
  spaces, a bullet and \<open>b\<close> does not begin with a glyph, and is rewritten. And in the text
  of three lines \<open>a\<close>, the empty line and \<open>\<cdot> b\<close>, no line has to change under the claim;
  the code deletes the empty line.
\<close>

theorem C3_counterexample:
  "normalize_bullets (cps ''a'' @ [10, 32, 32, 8226, 32] @ cps ''b'') = cps ''a'' @ [10, 183, 32] @ cps ''b'' \<and>
   normalize_bullets (cps ''a'' @ [10, 32, 32, 8226, 32] @ cps ''b'') \<noteq>
     cps ''a'' @ [10, 32, 32, 8226, 32] @ cps ''b'' \<and>
   normalize_bullets (cps ''a'' @ [10, 10, 183, 32] @ cps ''b'') = cps ''a'' @ [10, 183, 32] @ cps ''b'' \<and>
   normalize_bullets (cps ''a'' @ [10, 10, 183, 32] @ cps ''b'') \<noteq> cps ''a'' @ [10, 10, 183, 32] @ cps ''b''"
  by (simp add: normalize_bullets_def re_eval)

text \<open>
  Claim C3, amended. Take a proof span as its lines, and let every line but the last be
  proper: it holds a character that is not whitespace and, when the first such character
  is a period or a bullet glyph, another one after it. Then bullet normalisation works
  line by line: every line whose first character after optional leading whitespace is a
  period or a bullet glyph is rewritten to start with the canonical bullet and exactly one
  space, followed by what came after the glyph without its leading whitespace, and every
  other line is left untouched.
\<close>

theorem C3_bullets_linewise:
  assumes "\<forall>l\<in>set ls. 10 \<notin> set l"
    and "\<forall>l\<in>set (butlast ls). proper_line l"
  shows "normalize_bullets (join [10] ls) = join [10] (map norm_line ls)"
  using assms by (rule bullets_all_lines)

theorem C3_bullets_linewise_witness:
  "list_all (\<lambda>l. 10 \<notin> set l) [[120], [32, 32, 8226, 32, 97], [46, 32, 98], [183 :: nat]] \<and>
   list_all proper_line (butlast [[120], [32, 32, 8226, 32, 97], [46, 32, 98], [183]]) \<and>
   normalize_bullets [120, 10, 32, 32, 8226, 32, 97, 10, 46, 32, 98, 10, 183] =
     [120, 10, 183, 32, 97, 10, 183, 32, 98, 10, 183, 32]"
proof -
  have n: "\<forall>l\<in>set [[120], [32, 32, 8226, 32, 97], [46, 32, 98], [183 :: nat]]. 10 \<notin> set l"
    by simp
  have p: "\<forall>l\<in>set (butlast [[120], [32, 32, 8226, 32, 97], [46, 32, 98], [183]]). proper_line l"
    by (simp add: proper_line_def is_space_def is_glyph_def is_dot_def)
  have l: "map norm_line [[120], [32, 32, 8226, 32, 97], [46, 32, 98], [183]] =
             [[120], [183, 32, 97], [183, 32, 98], [183, 32]]"
    by (simp add: norm_line_def is_space_def is_glyph_def is_dot_def canonical_bullet_def)
  have "normalize_bullets [120, 10, 32, 32, 8226, 32, 97, 10, 46, 32, 98, 10, 183] =
     [120, 10, 183, 32, 97, 10, 183, 32, 98, 10, 183, 32]"
    using C3_bullets_linewise [OF n p] unfolding l by simp
  moreover have "list_all (\<lambda>l. 10 \<notin> set l) [[120], [32, 32, 8226, 32, 97], [46, 32, 98], [183 :: nat]]"
    by simp
  moreover have "list_all proper_line (butlast [[120], [32, 32, 8226, 32, 97], [46, 32, 98], [183]])"
    using p by (simp add: list_all_iff)
  ultimately show ?thesis by blast
qed

text \<open>
  Claim C8, as stated, fails: the substitution of line 26 makes one pass over the code. In
  a response whose code section holds a definition header and, indented on the next line,
  a second one, the match of the first header takes the line feed and the indentation
  after it as its trailing whitespace; the second header then does not start a line and
  stays. In the text reassembled from the parsed pair it does start a line, and parsing
  removes it.
\<close>

theorem C8_counterexample:
  "parse_code_proof (\<lambda>c. False) two_header_response = (cps ''def b (y) : M := z'', cps ''rfl'') \<and>
   parse_code_proof (\<lambda>c. False) (reassemble (cps ''def b (y) : M := z'') (cps ''rfl'')) =
     (cps ''z'', cps ''rfl'') \<and>
   parse_code_proof (\<lambda>c. False)
     (reassemble (fst (parse_code_proof (\<lambda>c. False) two_header_response))
                 (snd (parse_code_proof (\<lambda>c. False) two_header_response)))
     \<noteq> parse_code_proof (\<lambda>c. False) two_header_response"
proof -
  have c1: "code_section two_header_response =
      [100, 101, 102, 32, 97, 32, 40, 120, 41, 32, 58, 32, 78, 32, 58, 61, 10, 32, 32,
       100, 101, 102, 32, 98, 32, 40, 121, 41, 32, 58, 32, 77, 32, 58, 61, 32, 122]"
    by (simp add: two_header_response_def code_section_def re_eval)
  have p1: "proof_section two_header_response = [114, 102, 108]"
    by (simp add: two_header_response_def proof_section_def re_eval)
  have c2: "strip_fences [100, 101, 102, 32, 97, 32, 40, 120, 41, 32, 58, 32, 78, 32, 58, 61, 10, 32, 32,
       100, 101, 102, 32, 98, 32, 40, 121, 41, 32, 58, 32, 77, 32, 58, 61, 32, 122] =
      [100, 101, 102, 32, 97, 32, 40, 120, 41, 32, 58, 32, 78, 32, 58, 61, 10, 32, 32,
       100, 101, 102, 32, 98, 32, 40, 121, 41, 32, 58, 32, 77, 32, 58, 61, 32, 122]"
    by (simp add: strip_fences_def re_eval)
  have p2: "strip_fences [114, 102, 108] = [114, 102, 108]"
    by (simp add: strip_fences_def re_eval)
  have c3: "strip_def_header (\<lambda>c. False) [100, 101, 102, 32, 97, 32, 40, 120, 41, 32, 58, 32, 78, 32, 58, 61, 10, 32, 32,
       100, 101, 102, 32, 98, 32, 40, 121, 41, 32, 58, 32, 77, 32, 58, 61, 32, 122] =
      [100, 101, 102, 32, 98, 32, 40, 121, 41, 32, 58, 32, 77, 32, 58, 61, 32, 122]"
    by (simp add: strip_def_header_def re_eval)
  have p3: "normalize_bullets [114, 102, 108] = [114, 102, 108]"
    by (simp add: normalize_bullets_def re_eval)
  have a: "parse_code_proof (\<lambda>c. False) two_header_response =
      ([100, 101, 102, 32, 98, 32, 40, 121, 41, 32, 58, 32, 77, 32, 58, 61, 32, 122], [114, 102, 108])"
    by (simp add: parse_code_proof_def c1 p1 c2 p2 c3 p3 or_sentinel_def)
  have c4: "code_section (reassemble [100, 101, 102, 32, 98, 32, 40, 121, 41, 32, 58, 32, 77, 32, 58, 61, 32, 122] [114, 102, 108]) =
      [100, 101, 102, 32, 98, 32, 40, 121, 41, 32, 58, 32, 77, 32, 58, 61, 32, 122]"
    by (simp add: reassemble_def code_section_def re_eval)
  have p4: "proof_section (reassemble [100, 101, 102, 32, 98, 32, 40, 121, 41, 32, 58, 32, 77, 32, 58, 61, 32, 122] [114, 102, 108]) =
      [114, 102, 108]"
    by (simp add: reassemble_def proof_section_def re_eval)
  have c5: "strip_fences [100, 101, 102, 32, 98, 32, 40, 121, 41, 32, 58, 32, 77, 32, 58, 61, 32, 122] =
      [100, 101, 102, 32, 98, 32, 40, 121, 41, 32, 58, 32, 77, 32, 58, 61, 32, 122]"
    by (simp add: strip_fences_def re_eval)
  have c6: "strip_def_header (\<lambda>c. False) [100, 101, 102, 32, 98, 32, 40, 121, 41, 32, 58, 32, 77, 32, 58, 61, 32, 122] = [122]"
    by (simp add: strip_def_header_def re_eval)
  have b: "parse_code_proof (\<lambda>c. False)
      (reassemble [100, 101, 102, 32, 98, 32, 40, 121, 41, 32, 58, 32, 77, 32, 58, 61, 32, 122] [114, 102, 108]) = ([122], [114, 102, 108])"
    by (simp add: parse_code_proof_def c4 p4 c5 p2 c6 p3 or_sentinel_def)
  have e: "cps ''def b (y) : M := z'' = [100, 101, 102, 32, 98, 32, 40, 121, 41, 32, 58, 32, 77, 32, 58, 61, 32, 122]"
    "cps ''rfl'' = [114, 102, 108]" "cps ''z'' = [122]"
    by (simp_all add: cps_def)
  from a b show ?thesis unfolding e by simp
qed

text \<open>
  Claim C8, amended. Parsing the text reassembled from a parsed pair gives that pair again
  whenever the pair has no leading or trailing whitespace, its code holds no PROOF: marker,
  and the normalisation passes leave both fields as they are.
\<close>

theorem C8_reparse_stable:
  assumes "parse_code_proof uni response = (c, p)"
    and "strip c = c" and "strip p = p"
    and "\<not> contains_ci (cps ''PROOF:'') c"
    and "strip_fences c = c" and "strip_fences p = p"
    and "strip_def_header uni c = c"
    and "normalize_bullets p = p"
  shows "parse_code_proof uni (reassemble c p) = parse_code_proof uni response"
proof -
  from assms(1) have ne: "c \<noteq> []" "p \<noteq> []"
    using parse_code_proof_nonempty [of uni response] by simp_all
  have "code_section (reassemble c p) = c"
    using assms(4,2) by (rule code_section_reassemble)
  moreover have "proof_section (reassemble c p) = p"
    using assms(4,3) by (rule proof_section_reassemble)
  ultimately have "parse_code_proof uni (reassemble c p) = (c, p)"
    using assms(5-8) ne by (simp add: parse_code_proof_def or_sentinel_def)
  with assms(1) show ?thesis by simp
qed


theorem C8_reparse_stable_witness:
  "parse_code_proof (\<lambda>c. False) (cps ''code: x+1 proof: rfl'') = ([120, 43, 49], [114, 102, 108]) \<and>
   strip [120, 43, 49] = [120, 43, 49] \<and> strip [114, 102, 108] = [114, 102, 108] \<and>
   \<not> contains_ci (cps ''PROOF:'') [120, 43, 49] \<and>
   strip_fences [120, 43, 49] = [120, 43, 49] \<and> strip_fences [114, 102, 108] = [114, 102, 108] \<and>
   strip_def_header (\<lambda>c. False) [120, 43, 49] = [120, 43, 49] \<and>
   normalize_bullets [114, 102, 108] = [114, 102, 108] \<and>
   reassemble [120, 43, 49] [114, 102, 108] \<noteq> cps ''code: x+1 proof: rfl'' \<and>
   parse_code_proof (\<lambda>c. False) (reassemble [120, 43, 49] [114, 102, 108]) =
     parse_code_proof (\<lambda>c. False) (cps ''code: x+1 proof: rfl'')"
proof -
  have c1: "code_section (cps ''code: x+1 proof: rfl'') = [120, 43, 49]"
    by (simp add: code_section_def re_eval)
  have p1: "proof_section (cps ''code: x+1 proof: rfl'') = [114, 102, 108]"
    by (simp add: proof_section_def re_eval)
  have c2: "strip_fences [120, 43, 49] = [120, 43, 49]"
    by (simp add: strip_fences_def re_eval)
  have p2: "strip_fences [114, 102, 108] = [114, 102, 108]"
    by (simp add: strip_fences_def re_eval)
  have c3: "strip_def_header (\<lambda>c. False) [120, 43, 49] = [120, 43, 49]"
    by (simp add: strip_def_header_def re_eval)
  have p3: "normalize_bullets [114, 102, 108] = [114, 102, 108]"
    by (simp add: normalize_bullets_def re_eval)
  have a: "parse_code_proof (\<lambda>c. False) (cps ''code: x+1 proof: rfl'') =
      ([120, 43, 49], [114, 102, 108])"
    by (simp add: parse_code_proof_def c1 p1 c2 p2 c3 p3 or_sentinel_def)
  have s1: "strip [120, 43, 49] = [120, 43, 49]" and s2: "strip [114, 102, 108] = [114, 102, 108]"
    by (simp_all add: strip_def is_space_def)
  have n: "\<not> contains_ci (cps ''PROOF:'') [120, 43, 49]"
    by (simp add: contains_ci_def cps_def lower_def)
  have d: "reassemble [120, 43, 49] [114, 102, 108] \<noteq> cps ''code: x+1 proof: rfl''"
    by (simp add: reassemble_def cps_def)
  from C8_reparse_stable [OF a s1 s2 n c2 p2 c3 p3] a s1 s2 n c2 p2 c3 p3 d show ?thesis
    by simp
qed

end
